theory Spec2Isabelle
  imports Main "HOL-Library.Sublist"
begin

section \<open>The graph store: data model\<close>

text \<open>
  The three row types of package \<open>db\<close>. Go strings are byte strings and are modelled
  as \<open>string\<close>; the \<open>int64\<close> row ids are modelled as \<open>int\<close> (SQLite refuses an insert
  once the largest id is reached, which is one of the engine failures below). The
  field \<open>Type\<close> of \<open>Relation\<close> is \<open>RType\<close> here and the field \<open>ID\<close> of \<open>Observation\<close>
  is \<open>OID\<close>, since a field name belongs to one record.
\<close>

record Entity =
  Name :: string
  Type :: string

record Relation =
  ID :: int
  From :: string
  To :: string
  RType :: string

record Observation =
  OID :: int
  EntityName :: string
  Content :: string

text \<open>
  The database of the schema that \<open>Init\<close> creates: three tables, and for each of the
  two \<open>AUTOINCREMENT\<close> tables the largest id ever handed out (SQLite keeps it in
  \<open>sqlite_sequence\<close>). Tables are lists of rows in insertion order.
\<close>

record tables =
  entities :: "Entity list"
  relations :: "Relation list"
  observations :: "Observation list"
  relations_seq :: int
  observations_seq :: int

text \<open>
  A database handle of \<open>database/sql\<close> is a pool of connections to the one database.
  Besides the tables the model carries the outcomes of the coming calls into the
  storage engine, one per call. Every \<open>Exec\<close>, \<open>Query\<close>, \<open>QueryRow\<close>, \<open>Begin\<close> and
  \<open>Commit\<close> of the source is one such call. An outcome says three things.

  \<^item> \<open>engine_error\<close>: the call returns an error of the engine itself (I/O error,
    database locked or full, too many parameters).

  \<^item> \<open>foreign_keys\<close>: whether the connection that serves the call enforces the foreign
    keys. \<open>Init\<close> runs \<open>PRAGMA foreign_keys = ON\<close> once, through the handle, and the
    pragma holds for the one connection that served it. The handle has no limit on
    its connections and \<open>main\<close> shares it between the goroutine of standard input and
    the HTTP handlers: when two calls run at the same time the pool opens a further
    connection, on which the pragma was never run, keeps it, and serves later calls on
    it.

  \<^item> \<open>rows_fetched\<close>, for a query whose rows are read by a loop over \<open>rows.Next()\<close>:
    \<open>None\<close> when every row is fetched, \<open>Some k\<close> when the engine fails after \<open>k\<close>
    rows.

  An exhausted plan means that every further call is served without failure by the
  connection that \<open>Init\<close> configured.
\<close>

record outcome =
  engine_error :: bool
  foreign_keys :: bool
  rows_fetched :: "nat option"

record db =
  store :: tables
  plan :: "outcome list"

datatype error =
    StorageFailure
  | ForeignKeyFailed
  | EntityDoesNotExist string

text \<open>A call served by the connection that \<open>Init\<close> configured, every row fetched;
  the flag says whether the engine fails the call. A call served without failure by a
  connection that the pool opened later is \<open>unconfigured\<close>.\<close>

definition configured :: "bool \<Rightarrow> outcome" where
  "configured b = \<lparr>engine_error = b, foreign_keys = True, rows_fetched = None\<rparr>"

definition unconfigured :: outcome where
  "unconfigured = \<lparr>engine_error = False, foreign_keys = False, rows_fetched = None\<rparr>"

text \<open>A call on which the fetching of the rows fails after \<open>k\<close> of them.\<close>

definition interrupted :: "nat \<Rightarrow> outcome" where
  "interrupted k = \<lparr>engine_error = False, foreign_keys = True, rows_fetched = Some k\<rparr>"

text \<open>\<open>Init\<close> on the path of a new file: the empty tables. The argument lists, for the
  coming calls, whether the engine fails them; all of them are served by the configured
  connection. A handle whose calls are served otherwise is the same with another
  plan.\<close>

definition Init :: "bool list \<Rightarrow> db" where
  "Init fs =
     \<lparr>store = \<lparr>entities = [], relations = [], observations = [],
               relations_seq = 0, observations_seq = 0\<rparr>,
      plan = map configured fs\<rparr>"

text \<open>The engine failures that the plan holds for the coming calls.\<close>

definition faults :: "db \<Rightarrow> bool list" where
  "faults d = map engine_error (plan d)"

section \<open>The storage engine\<close>

definition engine_call :: "db \<Rightarrow> outcome \<times> db" where
  "engine_call d =
     (case plan d of
        [] \<Rightarrow> (configured False, d)
      | oc # ocs \<Rightarrow> (oc, d\<lparr>plan := ocs\<rparr>))"

text \<open>
  \<open>db.Exec\<close> outside a transaction: one statement, applied and committed at once. A
  statement is given whether its connection enforces the foreign keys; one that
  violates a constraint changes nothing.
\<close>

definition Exec ::
  "(bool \<Rightarrow> tables \<Rightarrow> error + 'r \<times> tables) \<Rightarrow> db \<Rightarrow> (error + 'r) \<times> db" where
  "Exec stmt d =
     (case engine_call d of
        (oc, d1) \<Rightarrow>
          if engine_error oc then (Inl StorageFailure, d1)
          else
            (case stmt (foreign_keys oc) (store d1) of
               Inl e \<Rightarrow> (Inl e, d1)
             | Inr (r, t) \<Rightarrow> (Inr r, d1\<lparr>store := t\<rparr>)))"

text \<open>\<open>db.QueryRow(...).Scan(...)\<close> on a query of one row: the tables are read, not
  changed. \<open>Scan\<close> returns the error of the query and of the fetching alike.\<close>

definition QueryRow :: "(tables \<Rightarrow> 'r) \<Rightarrow> db \<Rightarrow> (error + 'r) \<times> db" where
  "QueryRow q d =
     (case engine_call d of
        (oc, d1) \<Rightarrow>
          if engine_error oc then (Inl StorageFailure, d1)
          else (Inr (q (store d1)), d1))"

text \<open>
  \<open>db.Query\<close> followed by the loop \<open>for rows.Next() { rows.Scan(...); append }\<close>. An
  error of \<open>db.Query\<close> itself is returned. The driver fetches a row in \<open>Next\<close>; when
  that fails \<open>Next\<close> returns false like at the end of the rows, and the source never
  asks \<open>rows.Err()\<close>: the loop ends with the rows read so far and no error. The
  \<open>Scan\<close> of a fetched row into the strings and integers of the row types does not
  fail.
\<close>

definition fetch :: "nat option \<Rightarrow> 'a list \<Rightarrow> 'a list" where
  "fetch stop rows = (case stop of None \<Rightarrow> rows | Some k \<Rightarrow> take k rows)"

definition QueryRows :: "(tables \<Rightarrow> 'a list) \<Rightarrow> db \<Rightarrow> (error + 'a list) \<times> db" where
  "QueryRows q d =
     (case engine_call d of
        (oc, d1) \<Rightarrow>
          if engine_error oc then (Inl StorageFailure, d1)
          else (Inr (fetch (rows_fetched oc) (q (store d1))), d1))"

text \<open>
  A transaction runs on one connection, the one that served \<open>Begin\<close>, and works on a
  copy of the tables, which \<open>Commit\<close> installs. The deferred \<open>tx.Rollback()\<close> of the
  source drops the copy: it does nothing after a successful \<open>Commit\<close>, and after a
  failure the tables of the handle are the ones from before \<open>Begin\<close>.
\<close>

record Tx =
  working :: tables
  enforcing :: bool

definition Begin :: "db \<Rightarrow> (error + Tx) \<times> db" where
  "Begin d =
     (case engine_call d of
        (oc, d1) \<Rightarrow>
          if engine_error oc then (Inl StorageFailure, d1)
          else (Inr \<lparr>working = store d1, enforcing = foreign_keys oc\<rparr>, d1))"

definition TxExec ::
  "(bool \<Rightarrow> tables \<Rightarrow> error + 'r \<times> tables) \<Rightarrow> Tx \<Rightarrow> db \<Rightarrow> (error + 'r \<times> Tx) \<times> db" where
  "TxExec stmt tx d =
     (case engine_call d of
        (oc, d1) \<Rightarrow>
          if engine_error oc then (Inl StorageFailure, d1)
          else
            (case stmt (enforcing tx) (working tx) of
               Inl e \<Rightarrow> (Inl e, d1)
             | Inr (r, t) \<Rightarrow> (Inr (r, tx\<lparr>working := t\<rparr>), d1)))"

definition Commit :: "Tx \<Rightarrow> db \<Rightarrow> error option \<times> db" where
  "Commit tx d =
     (case engine_call d of
        (oc, d1) \<Rightarrow>
          if engine_error oc then (Some StorageFailure, d1)
          else (None, d1\<lparr>store := working tx\<rparr>))"

section \<open>The SQL statements of the source\<close>

text \<open>A statement that a foreign key concerns takes, before the tables, whether its
  connection enforces the foreign keys.\<close>

definition entity_exists :: "tables \<Rightarrow> string \<Rightarrow> bool" where
  "entity_exists t n = (n \<in> set (map Name (entities t)))"

text \<open>\<open>INSERT OR IGNORE INTO entities(name, entity_type) VALUES(?, ?)\<close>, with
  \<open>name\<close> the primary key: a row whose name is taken is not inserted, and that is
  no error. The table refers to no other.\<close>

definition insert_or_ignore_entity :: "string \<Rightarrow> string \<Rightarrow> tables \<Rightarrow> error + unit \<times> tables" where
  "insert_or_ignore_entity n ty t =
     (if entity_exists t n then Inr ((), t)
      else Inr ((), t\<lparr>entities := entities t @ [\<lparr>Name = n, Type = ty\<rparr>]\<rparr>))"

text \<open>The id of a new row of an \<open>AUTOINCREMENT\<close> table: one more than the largest id
  the table holds or has ever held.\<close>

definition next_id :: "int \<Rightarrow> int list \<Rightarrow> int" where
  "next_id seq ids = fold max ids seq + 1"

text \<open>\<open>INSERT INTO relations(from_entity, to_entity, relation_type) VALUES(?, ?, ?)\<close>.
  On a connection that enforces the foreign keys both endpoints must be rows of
  \<open>entities\<close>; on another the row is inserted whatever its endpoints are. The result is
  \<open>LastInsertId\<close>.\<close>

definition insert_relation ::
  "string \<Rightarrow> string \<Rightarrow> string \<Rightarrow> bool \<Rightarrow> tables \<Rightarrow> error + int \<times> tables" where
  "insert_relation f t ty fk tb =
     (if fk \<and> (\<not> entity_exists tb f \<or> \<not> entity_exists tb t) then Inl ForeignKeyFailed
      else
        let i = next_id (relations_seq tb) (map ID (relations tb)) in
        Inr (i, tb\<lparr>relations := relations tb @ [\<lparr>ID = i, From = f, To = t, RType = ty\<rparr>],
                   relations_seq := i\<rparr>))"

text \<open>\<open>INSERT INTO observations(entity_name, content) VALUES(?, ?)\<close>, likewise.\<close>

definition insert_observation ::
  "string \<Rightarrow> string \<Rightarrow> bool \<Rightarrow> tables \<Rightarrow> error + int \<times> tables" where
  "insert_observation n c fk tb =
     (if fk \<and> \<not> entity_exists tb n then Inl ForeignKeyFailed
      else
        let i = next_id (observations_seq tb) (map OID (observations tb)) in
        Inr (i, tb\<lparr>observations := observations tb @ [\<lparr>OID = i, EntityName = n, Content = c\<rparr>],
                   observations_seq := i\<rparr>))"

section \<open>Creating rows\<close>

definition CreateEntity :: "db \<Rightarrow> string \<Rightarrow> string \<Rightarrow> error option \<times> db" where
  "CreateEntity d name entityType =
     (case Exec (\<lambda>fk. insert_or_ignore_entity name entityType) d of
        (Inl err, d1) \<Rightarrow> (Some err, d1)
      | (Inr _, d1) \<Rightarrow> (None, d1))"

definition CreateRelation :: "db \<Rightarrow> string \<Rightarrow> string \<Rightarrow> string \<Rightarrow> (error + int) \<times> db" where
  "CreateRelation d from to relationType =
     (case Exec (insert_relation from to relationType) d of
        (Inl err, d1) \<Rightarrow> (Inl err, d1)
      | (Inr i, d1) \<Rightarrow> (Inr i, d1))"

definition CreateObservation :: "db \<Rightarrow> string \<Rightarrow> string \<Rightarrow> (error + int) \<times> db" where
  "CreateObservation d entityName content =
     (case Exec (insert_observation entityName content) d of
        (Inl err, d1) \<Rightarrow> (Inl err, d1)
      | (Inr i, d1) \<Rightarrow> (Inr i, d1))"

text \<open>An item of the batch of \<open>AddObservations\<close>: \<open>(EntityName, Contents)\<close>.\<close>

type_synonym ObservationItem = "string \<times> string"

text \<open>The loop of \<open>AddObservations\<close>, with the slice \<open>added\<close> as accumulator. Every
  statement runs on the handle itself, outside any transaction, and is committed when
  it returns.\<close>

fun AddObservations_loop ::
  "db \<Rightarrow> ObservationItem list \<Rightarrow> Observation list \<Rightarrow> (error + Observation list) \<times> db" where
  "AddObservations_loop d [] added = (Inr added, d)"
| "AddObservations_loop d ((entityName, contents) # rest) added =
     (case QueryRow (\<lambda>t. entity_exists t entityName) d of
        (Inl err, d1) \<Rightarrow> (Inl err, d1)
      | (Inr exists, d1) \<Rightarrow>
          if \<not> exists then (Inl (EntityDoesNotExist entityName), d1)
          else
            (case CreateObservation d1 entityName contents of
               (Inl err, d2) \<Rightarrow> (Inl err, d2)
             | (Inr i, d2) \<Rightarrow>
                 AddObservations_loop d2 rest
                   (added @ [\<lparr>OID = i, EntityName = entityName, Content = contents\<rparr>])))"

definition AddObservations :: "db \<Rightarrow> ObservationItem list \<Rightarrow> (error + Observation list) \<times> db" where
  "AddObservations d batch = AddObservations_loop d batch []"

section \<open>Deleting rows\<close>

text \<open>\<open>DELETE FROM relations WHERE from_entity IN (...) OR to_entity IN (...)\<close>.\<close>

definition delete_relations_touching :: "string list \<Rightarrow> tables \<Rightarrow> error + unit \<times> tables" where
  "delete_relations_touching names t =
     Inr ((), t\<lparr>relations :=
                  filter (\<lambda>r. \<not> (From r \<in> set names \<or> To r \<in> set names)) (relations t)\<rparr>)"

text \<open>\<open>DELETE FROM observations WHERE entity_name IN (...)\<close>.\<close>

definition delete_observations_of :: "string list \<Rightarrow> tables \<Rightarrow> error + unit \<times> tables" where
  "delete_observations_of names t =
     Inr ((), t\<lparr>observations :=
                  filter (\<lambda>ob. \<not> EntityName ob \<in> set names) (observations t)\<rparr>)"

text \<open>\<open>DELETE FROM entities WHERE name IN (...)\<close>. The foreign keys of \<open>relations\<close>
  and \<open>observations\<close> have no \<open>ON DELETE\<close> action, so on a connection that enforces
  them the statement fails when a row still refers to a deleted entity.\<close>

definition delete_entities_named ::
  "string list \<Rightarrow> bool \<Rightarrow> tables \<Rightarrow> error + unit \<times> tables" where
  "delete_entities_named names fk t =
     (let gone = map Name (filter (\<lambda>e. Name e \<in> set names) (entities t)) in
      if fk \<and> (list_ex (\<lambda>r. From r \<in> set gone \<or> To r \<in> set gone) (relations t)
         \<or> list_ex (\<lambda>ob. EntityName ob \<in> set gone) (observations t))
      then Inl ForeignKeyFailed
      else Inr ((), t\<lparr>entities := filter (\<lambda>e. \<not> Name e \<in> set names) (entities t)\<rparr>))"

definition DeleteEntities :: "db \<Rightarrow> string list \<Rightarrow> error option \<times> db" where
  "DeleteEntities d entityNames =
     (if entityNames = [] then (None, d)
      else
        (case Begin d of
           (Inl err, d1) \<Rightarrow> (Some err, d1)
         | (Inr tx, d1) \<Rightarrow>
             (case TxExec (\<lambda>fk. delete_relations_touching entityNames) tx d1 of
                (Inl err, d2) \<Rightarrow> (Some err, d2)
              | (Inr (_, tx2), d2) \<Rightarrow>
                  (case TxExec (\<lambda>fk. delete_observations_of entityNames) tx2 d2 of
                     (Inl err, d3) \<Rightarrow> (Some err, d3)
                   | (Inr (_, tx3), d3) \<Rightarrow>
                       (case TxExec (delete_entities_named entityNames) tx3 d3 of
                          (Inl err, d4) \<Rightarrow> (Some err, d4)
                        | (Inr (_, tx4), d4) \<Rightarrow> Commit tx4 d4)))))"

text \<open>\<open>DELETE FROM observations WHERE entity_name = ? AND content IN (...)\<close>.\<close>

definition delete_observations_matching ::
  "string \<Rightarrow> string list \<Rightarrow> tables \<Rightarrow> error + unit \<times> tables" where
  "delete_observations_matching n cs t =
     Inr ((), t\<lparr>observations :=
                  filter (\<lambda>ob. \<not> (EntityName ob = n \<and> Content ob \<in> set cs)) (observations t)\<rparr>)"

text \<open>An item of \<open>DeleteObservations\<close>: \<open>(EntityName, Observations)\<close>.\<close>

type_synonym ObservationDeletion = "string \<times> string list"

fun DeleteObservations_loop :: "db \<Rightarrow> ObservationDeletion list \<Rightarrow> error option \<times> db" where
  "DeleteObservations_loop d [] = (None, d)"
| "DeleteObservations_loop d ((entityName, obs) # rest) =
     (if obs = [] then DeleteObservations_loop d rest
      else
        (case Exec (\<lambda>fk. delete_observations_matching entityName obs) d of
           (Inl err, d1) \<Rightarrow> (Some err, d1)
         | (Inr _, d1) \<Rightarrow> DeleteObservations_loop d1 rest))"

definition DeleteObservations :: "db \<Rightarrow> ObservationDeletion list \<Rightarrow> error option \<times> db" where
  "DeleteObservations d deletions =
     (if deletions = [] then (None, d) else DeleteObservations_loop d deletions)"

text \<open>\<open>DELETE FROM relations WHERE from_entity = ? AND to_entity = ? AND relation_type = ?\<close>.\<close>

definition delete_relation_exact ::
  "string \<Rightarrow> string \<Rightarrow> string \<Rightarrow> tables \<Rightarrow> error + unit \<times> tables" where
  "delete_relation_exact f t ty tb =
     Inr ((), tb\<lparr>relations :=
                   filter (\<lambda>r. \<not> (From r = f \<and> To r = t \<and> RType r = ty)) (relations tb)\<rparr>)"

text \<open>An item of \<open>DeleteRelations\<close>: \<open>(From, To, Type)\<close>.\<close>

type_synonym RelationKey = "string \<times> string \<times> string"

text \<open>The loop of \<open>DeleteRelations\<close>: one \<open>db.Exec\<close> on the handle per item; the source
  opens no transaction here.\<close>

fun DeleteRelations_loop :: "db \<Rightarrow> RelationKey list \<Rightarrow> error option \<times> db" where
  "DeleteRelations_loop d [] = (None, d)"
| "DeleteRelations_loop d ((f, t, ty) # rest) =
     (case Exec (\<lambda>fk. delete_relation_exact f t ty) d of
        (Inl err, d1) \<Rightarrow> (Some err, d1)
      | (Inr _, d1) \<Rightarrow> DeleteRelations_loop d1 rest)"

definition DeleteRelations :: "db \<Rightarrow> RelationKey list \<Rightarrow> error option \<times> db" where
  "DeleteRelations d rels =
     (if rels = [] then (None, d) else DeleteRelations_loop d rels)"

section \<open>Reading\<close>

text \<open>The three queries of \<open>ReadGraph\<close>, each with its loop over the rows.\<close>

definition ReadGraph ::
  "db \<Rightarrow> (error + Entity list \<times> Relation list \<times> Observation list) \<times> db" where
  "ReadGraph d =
     (case QueryRows entities d of
        (Inl err, d1) \<Rightarrow> (Inl err, d1)
      | (Inr ents, d1) \<Rightarrow>
          (case QueryRows relations d1 of
             (Inl err, d2) \<Rightarrow> (Inl err, d2)
           | (Inr rels, d2) \<Rightarrow>
               (case QueryRows observations d2 of
                  (Inl err, d3) \<Rightarrow> (Inl err, d3)
                | (Inr obs, d3) \<Rightarrow> (Inr (ents, rels, obs), d3))))"

subsection \<open>Text matching\<close>

text \<open>
  Characters are the bytes of the text. SQLite's \<open>LOWER\<close> maps the letters \<open>A\<close> to
  \<open>Z\<close> to lower case and leaves every other byte alone. Go's \<open>strings.ToLower\<close> does
  the same on text that is all ASCII; on other text it maps by the Unicode tables,
  which are no part of the repository and are the parameter \<open>unicode_lower\<close>.
\<close>

definition is_ascii :: "char \<Rightarrow> bool" where
  "is_ascii c = ((of_char c :: nat) < 128)"

definition ascii_lower :: "char \<Rightarrow> char" where
  "ascii_lower c =
     (let n = (of_char c :: nat) in
      if 65 \<le> n \<and> n \<le> 90 then char_of (n + 32) else c)"

definition LOWER :: "string \<Rightarrow> string" where
  "LOWER s = map ascii_lower s"

definition ToLower :: "(string \<Rightarrow> string) \<Rightarrow> string \<Rightarrow> string" where
  "ToLower unicode_lower s =
     (if list_all is_ascii s then map ascii_lower s else unicode_lower s)"

text \<open>
  The matching of SQL \<open>LIKE\<close> without \<open>ESCAPE\<close>, pattern first: in the pattern \<open>%\<close>
  stands for any run of characters, \<open>_\<close> for any one character (a byte, in ASCII
  text), and any other character for itself, the letters \<open>A\<close> to \<open>Z\<close> without regard
  to case.
\<close>

fun like_match :: "string \<Rightarrow> string \<Rightarrow> bool" where
  "like_match [] [] = True"
| "like_match [] (c # s) = False"
| "like_match (p # ps) [] = (p = CHR ''%'' \<and> like_match ps [])"
| "like_match (p # ps) (c # s) =
     (if p = CHR ''%'' then like_match ps (c # s) \<or> like_match (p # ps) s
      else (p = CHR ''_'' \<or> ascii_lower p = ascii_lower c) \<and> like_match ps s)"

text \<open>
  SQLite keeps a text with its length, and compares and lowers all of it, but its
  \<open>LIKE\<close> reads both operands as C strings: up to the first NUL character.
\<close>

definition c_string :: "string \<Rightarrow> string" where
  "c_string s = takeWhile (\<lambda>c. c \<noteq> CHR 0x00) s"

definition LIKE :: "string \<Rightarrow> string \<Rightarrow> bool" where
  "LIKE s pat = like_match (c_string pat) (c_string s)"

subsection \<open>The two queries of \<open>SearchNodes\<close> and \<open>OpenNodes\<close>\<close>

text \<open>\<open>FROM entities e LEFT JOIN observations o ON e.name = o.entity_name\<close>: every
  entity with each of its observations, and once with none when it has none.\<close>

definition left_join_observations :: "tables \<Rightarrow> (Entity \<times> Observation option) list" where
  "left_join_observations t =
     concat (map (\<lambda>e.
        (case filter (\<lambda>ob. EntityName ob = Name e) (observations t) of
           [] \<Rightarrow> [(e, None)]
         | obs \<Rightarrow> map (\<lambda>ob. (e, Some ob)) obs)) (entities t))"

text \<open>SQLite refuses a \<open>LIKE\<close> pattern of more than this many bytes (\<open>LIKE or GLOB
  pattern too complex\<close>). It does so when it evaluates the \<open>LIKE\<close>, which is while it
  fetches a row.\<close>

definition SQLITE_MAX_LIKE_PATTERN_LENGTH :: nat where
  "SQLITE_MAX_LIKE_PATTERN_LENGTH = 50000"

text \<open>\<open>SELECT DISTINCT e.name, e.entity_type ... WHERE LOWER(e.name) LIKE ? OR
  LOWER(e.entity_type) LIKE ? OR LOWER(o.content) LIKE ?\<close>, the three parameters being
  the same pattern. Without an observation \<open>o.content\<close> is \<open>NULL\<close> and the third test
  is not true. SQL fixes no order of the rows; the model lists them in table order.
  The result is the rows that the loop over \<open>rows.Next()\<close> fetches when the engine
  does not stop it: with a pattern that is too long the test on the first candidate row
  fails, before any row is delivered, and the loop sees no row.\<close>

definition select_matching_entities :: "string \<Rightarrow> tables \<Rightarrow> Entity list" where
  "select_matching_entities pat t =
     (if SQLITE_MAX_LIKE_PATTERN_LENGTH < length pat then []
      else
        remdups (map fst (filter (\<lambda>(e, joined).
          LIKE (LOWER (Name e)) pat \<or> LIKE (LOWER (Type e)) pat \<or>
          (case joined of None \<Rightarrow> False | Some ob \<Rightarrow> LIKE (LOWER (Content ob)) pat))
          (left_join_observations t))))"

text \<open>\<open>SELECT id, from_entity, to_entity, relation_type FROM relations WHERE
  from_entity IN (...) OR to_entity IN (...)\<close>.\<close>

definition select_relations_touching :: "string list \<Rightarrow> tables \<Rightarrow> Relation list" where
  "select_relations_touching names t =
     filter (\<lambda>r. From r \<in> set names \<or> To r \<in> set names) (relations t)"

text \<open>\<open>SELECT name, entity_type FROM entities WHERE name IN (...)\<close>.\<close>

definition select_entities_named :: "string list \<Rightarrow> tables \<Rightarrow> Entity list" where
  "select_entities_named names t = filter (\<lambda>e. Name e \<in> set names) (entities t)"

definition SearchNodes ::
  "(string \<Rightarrow> string) \<Rightarrow> db \<Rightarrow> string \<Rightarrow> (error + Entity list \<times> Relation list) \<times> db" where
  "SearchNodes unicode_lower d query =
     (let searchPattern = ''%'' @ ToLower unicode_lower query @ ''%'' in
      case QueryRows (select_matching_entities searchPattern) d of
        (Inl err, d1) \<Rightarrow> (Inl err, d1)
      | (Inr ents, d1) \<Rightarrow>
          if ents = [] then (Inr (ents, []), d1)
          else
            let entityNames = map Name ents in
            (case QueryRows (select_relations_touching entityNames) d1 of
               (Inl err, d2) \<Rightarrow> (Inl err, d2)
             | (Inr rels, d2) \<Rightarrow> (Inr (ents, rels), d2)))"

text \<open>\<open>OpenNodes\<close> asks for the relations with the names it was given, not with the
  names of the entities it found.\<close>

definition OpenNodes :: "db \<Rightarrow> string list \<Rightarrow> (error + Entity list \<times> Relation list) \<times> db" where
  "OpenNodes d nodeNames =
     (if nodeNames = [] then (Inr ([], []), d)
      else
        (case QueryRows (select_entities_named nodeNames) d of
           (Inl err, d1) \<Rightarrow> (Inl err, d1)
         | (Inr ents, d1) \<Rightarrow>
             if ents = [] then (Inr (ents, []), d1)
             else
               (case QueryRows (select_relations_touching nodeNames) d1 of
                  (Inl err, d2) \<Rightarrow> (Inl err, d2)
                | (Inr rels, d2) \<Rightarrow> (Inr (ents, rels), d2))))"

section \<open>The transports\<close>

text \<open>
  The request envelope of package \<open>mcp\<close>. \<open>ID\<close> and \<open>Params\<close> are \<open>interface{}\<close>
  values (\<open>ReqID\<close> is the field \<open>ID\<close>); \<open>None\<close> is Go's \<open>nil\<close>, which is what the
  decoder leaves in \<open>ID\<close> when the member \<open>id\<close> is absent or \<open>null\<close>.
\<close>

record 'v JSONRPCRequest =
  JSONRPC :: string
  ReqID :: "'v option"
  Method :: string
  Params :: "'v option"

subsection \<open>Standard input and output\<close>

text \<open>
  \<open>handleStdioMCP\<close> on the lines that the scanner delivers. \<open>Unmarshal\<close> is
  \<open>json.Unmarshal\<close> (\<open>None\<close> when it returns an error) and \<open>HandleJSONRPCMethod\<close> is
  the dispatcher, which returns its response and the database it leaves. The result
  is the list of responses given to the encoder, in order, and the final database.
\<close>

fun handleStdioMCP ::
  "(string \<Rightarrow> 'v JSONRPCRequest option) \<Rightarrow> (db \<Rightarrow> 'v JSONRPCRequest \<Rightarrow> 'r \<times> db) \<Rightarrow>
   db \<Rightarrow> string list \<Rightarrow> 'r list \<times> db" where
  "handleStdioMCP Unmarshal HandleJSONRPCMethod database [] = ([], database)"
| "handleStdioMCP Unmarshal HandleJSONRPCMethod database (line # rest) =
     (if line = [] then handleStdioMCP Unmarshal HandleJSONRPCMethod database rest
      else
        (case Unmarshal line of
           None \<Rightarrow> handleStdioMCP Unmarshal HandleJSONRPCMethod database rest
         | Some req \<Rightarrow>
             if ReqID req \<noteq> None then
               (case HandleJSONRPCMethod database req of
                  (response, database1) \<Rightarrow>
                    (case handleStdioMCP Unmarshal HandleJSONRPCMethod database1 rest of
                       (out, database2) \<Rightarrow> (response # out, database2)))
             else
               (case HandleJSONRPCMethod database req of
                  (_, database1) \<Rightarrow>
                    handleStdioMCP Unmarshal HandleJSONRPCMethod database1 rest)))"

subsection \<open>The POST message endpoint\<close>

text \<open>
  A session of the manager, with the requests waiting in its channel, which holds at
  most ten. The writer, the flusher and the \<open>done\<close> channel play no part in the POST
  handler.
\<close>

record 'v MCPSession =
  sessionID :: string
  messageChan :: "'v JSONRPCRequest list"
  initialized :: bool

type_synonym 'v MCPSessionManager = "string \<rightharpoonup> 'v MCPSession"

text \<open>What the handler reads of the HTTP request: the header \<open>X-Session-ID\<close> (empty
  when the header is absent) and the body.\<close>

record Request =
  XSessionID :: string
  Body :: string

definition StatusAccepted :: nat where "StatusAccepted = 202"
definition StatusBadRequest :: nat where "StatusBadRequest = 400"
definition StatusNotFound :: nat where "StatusNotFound = 404"
definition StatusServiceUnavailable :: nat where "StatusServiceUnavailable = 503"

text \<open>
  \<open>handleJSONRPCMessage\<close>: the status and text it answers with, and the sessions
  afterwards. \<open>Decode\<close> is the JSON decoder on the body. The \<open>select\<close> that sends to
  the channel is modelled without the reader running beside it: the send succeeds
  when the channel has room, and otherwise the five seconds pass.
\<close>

definition handleJSONRPCMessage ::
  "(string \<Rightarrow> 'v JSONRPCRequest option) \<Rightarrow> 'v MCPSessionManager \<Rightarrow> Request \<Rightarrow>
   (nat \<times> string) \<times> 'v MCPSessionManager" where
  "handleJSONRPCMessage Decode sessions r =
     (let sid = XSessionID r in
      if sid = [] then ((StatusBadRequest, ''missing session ID''), sessions)
      else
        (case Decode (Body r) of
           None \<Rightarrow> ((StatusBadRequest, ''bad JSON''), sessions)
         | Some req \<Rightarrow>
             if JSONRPC req \<noteq> ''2.0'' then
               ((StatusBadRequest, ''invalid JSON-RPC version''), sessions)
             else
               (case sessions sid of
                  None \<Rightarrow> ((StatusNotFound, ''session not found''), sessions)
                | Some session \<Rightarrow>
                    if length (messageChan session) < 10 then
                      ((StatusAccepted, []),
                       sessions(sid \<mapsto> session\<lparr>messageChan := messageChan session @ [req]\<rparr>))
                    else ((StatusServiceUnavailable, ''session busy''), sessions))))"

section \<open>Invariants and histories\<close>

text \<open>
  What the schema of \<open>Init\<close> means to keep true of the tables: the primary keys are
  unique, every relation and observation refers to entities that exist, and no id is
  larger than the recorded largest one. The references are kept as long as the
  connections that serve the calls enforce the foreign keys.
\<close>

definition wf_tables :: "tables \<Rightarrow> bool" where
  "wf_tables t \<longleftrightarrow>
     distinct (map Name (entities t)) \<and>
     distinct (map ID (relations t)) \<and>
     distinct (map OID (observations t)) \<and>
     list_all (\<lambda>r. entity_exists t (From r) \<and> entity_exists t (To r) \<and> ID r \<le> relations_seq t)
       (relations t) \<and>
     list_all (\<lambda>ob. entity_exists t (EntityName ob) \<and> OID ob \<le> observations_seq t)
       (observations t)"

text \<open>The calls a client can make on the store.\<close>

datatype call =
    CallCreateEntity string string
  | CallCreateRelation string string string
  | CallCreateObservation string string
  | CallAddObservations "ObservationItem list"
  | CallDeleteEntities "string list"
  | CallDeleteObservations "ObservationDeletion list"
  | CallDeleteRelations "RelationKey list"
  | CallReadGraph
  | CallSearchNodes string
  | CallOpenNodes "string list"

text \<open>One call: the relation ids it hands out to its caller, and the handle after it.\<close>

fun perform :: "(string \<Rightarrow> string) \<Rightarrow> db \<Rightarrow> call \<Rightarrow> int list \<times> db" where
  "perform ul d (CallCreateEntity n ty) = ([], snd (CreateEntity d n ty))"
| "perform ul d (CallCreateRelation f t ty) =
     (case CreateRelation d f t ty of
        (Inl _, d1) \<Rightarrow> ([], d1)
      | (Inr i, d1) \<Rightarrow> ([i], d1))"
| "perform ul d (CallCreateObservation n c) = ([], snd (CreateObservation d n c))"
| "perform ul d (CallAddObservations batch) = ([], snd (AddObservations d batch))"
| "perform ul d (CallDeleteEntities names) = ([], snd (DeleteEntities d names))"
| "perform ul d (CallDeleteObservations dels) = ([], snd (DeleteObservations d dels))"
| "perform ul d (CallDeleteRelations rels) = ([], snd (DeleteRelations d rels))"
| "perform ul d CallReadGraph = ([], snd (ReadGraph d))"
| "perform ul d (CallSearchNodes q) = ([], snd (SearchNodes ul d q))"
| "perform ul d (CallOpenNodes names) = ([], snd (OpenNodes d names))"

fun run :: "(string \<Rightarrow> string) \<Rightarrow> db \<Rightarrow> call list \<Rightarrow> int list \<times> db" where
  "run ul d [] = ([], d)"
| "run ul d (c # cs) =
     (case perform ul d c of
        (ids, d1) \<Rightarrow> (case run ul d1 cs of (ids', d2) \<Rightarrow> (ids @ ids', d2)))"

text \<open>Whether the next call into the engine fails, and whether one of the next \<open>k\<close>
  does.\<close>

definition engine_fails :: "db \<Rightarrow> bool" where
  "engine_fails d = engine_error (fst (engine_call d))"

definition fails_within :: "nat \<Rightarrow> db \<Rightarrow> bool" where
  "fails_within k d = (True \<in> set (take k (faults d)))"

text \<open>Whether the connection that serves the next call enforces the foreign keys, and
  whether those of all coming calls do.\<close>

definition enforces :: "db \<Rightarrow> bool" where
  "enforces d = foreign_keys (fst (engine_call d))"

definition all_enforced :: "db \<Rightarrow> bool" where
  "all_enforced d = list_all foreign_keys (plan d)"

text \<open>Where the fetching of the rows of the next call stops, if it does, and whether
  that of one of the next \<open>k\<close> calls does.\<close>

definition fetched :: "db \<Rightarrow> nat option" where
  "fetched d = rows_fetched (fst (engine_call d))"

definition fetch_fails_within :: "nat \<Rightarrow> db \<Rightarrow> bool" where
  "fetch_fails_within k d = list_ex (\<lambda>oc. rows_fetched oc \<noteq> None) (take k (plan d))"

section \<open>Reference behaviour\<close>

text \<open>The tables without the named entities, without the observations they own and
  without the relations that touch them.\<close>

definition cascade :: "string list \<Rightarrow> tables \<Rightarrow> tables" where
  "cascade names t =
     t\<lparr>relations := filter (\<lambda>r. From r \<notin> set names \<and> To r \<notin> set names) (relations t),
       observations := filter (\<lambda>ob. EntityName ob \<notin> set names) (observations t),
       entities := filter (\<lambda>e. Name e \<notin> set names) (entities t)\<rparr>"

text \<open>The observation that an item becomes, and the tables with it stored.\<close>

definition new_observation :: "tables \<Rightarrow> ObservationItem \<Rightarrow> Observation" where
  "new_observation t item =
     \<lparr>OID = next_id (observations_seq t) (map OID (observations t)),
      EntityName = fst item, Content = snd item\<rparr>"

definition with_observation :: "tables \<Rightarrow> ObservationItem \<Rightarrow> tables" where
  "with_observation t item =
     (let i = next_id (observations_seq t) (map OID (observations t)) in
      t\<lparr>observations := observations t @ [\<lparr>OID = i, EntityName = fst item, Content = snd item\<rparr>],
        observations_seq := i\<rparr>)"

text \<open>Tables that differ from others only in that relations and observations are
  gone.\<close>

definition shrinks :: "tables \<Rightarrow> tables \<Rightarrow> bool" where
  "shrinks t t' \<longleftrightarrow>
     entities t' = entities t \<and> relations_seq t' = relations_seq t \<and>
     observations_seq t' = observations_seq t \<and>
     (\<exists>P. relations t' = filter P (relations t)) \<and>
     (\<exists>Q. observations t' = filter Q (observations t))"

text \<open>How many of the next \<open>n\<close> calls into the engine are made and succeed before one
  fails: \<open>n\<close> when none of them fails.\<close>

fun survives :: "bool list \<Rightarrow> nat \<Rightarrow> nat" where
  "survives fs 0 = 0"
| "survives [] (Suc n) = Suc n"
| "survives (b # fs) (Suc n) = (if b then 0 else Suc (survives fs n))"

text \<open>What \<open>DeleteRelations\<close> matches a row by.\<close>

definition relation_key :: "Relation \<Rightarrow> RelationKey" where
  "relation_key r = (From r, To r, RType r)"

text \<open>The two characters that \<open>LIKE\<close> does not take literally, and what it is for a
  text to contain another as a substring when the case of the letters \<open>A\<close> to \<open>Z\<close>
  is ignored.\<close>

definition is_wildcard :: "char \<Rightarrow> bool" where
  "is_wildcard c = (c = CHR ''%'' \<or> c = CHR ''_'')"

definition contains_ignoring_case :: "string \<Rightarrow> string \<Rightarrow> bool" where
  "contains_ignoring_case q s = sublist (map ascii_lower q) (map ascii_lower s)"

text \<open>The stored entities of which the name, the type or an observation contains the
  query, and the stored relations of which the source or the target is one of the
  given entities.\<close>

definition entities_containing :: "string \<Rightarrow> tables \<Rightarrow> Entity list" where
  "entities_containing q t =
     filter (\<lambda>e. contains_ignoring_case q (Name e) \<or> contains_ignoring_case q (Type e) \<or>
                 list_ex (\<lambda>ob. EntityName ob = Name e \<and> contains_ignoring_case q (Content ob))
                   (observations t))
       (entities t)"

definition relations_touching :: "Entity list \<Rightarrow> tables \<Rightarrow> Relation list" where
  "relations_touching ents t =
     filter (\<lambda>r. From r \<in> set (map Name ents) \<or> To r \<in> set (map Name ents)) (relations t)"

text \<open>Text without a NUL character, and tables whose names, types and observations
  are such text.\<close>

definition plain_text :: "string \<Rightarrow> bool" where
  "plain_text s = (CHR 0x00 \<notin> set s)"

definition plain_tables :: "tables \<Rightarrow> bool" where
  "plain_tables t \<longleftrightarrow>
     list_all (\<lambda>e. plain_text (Name e) \<and> plain_text (Type e)) (entities t) \<and>
     list_all (\<lambda>ob. plain_text (Content ob)) (observations t)"

text \<open>The requests that the transport over standard input dispatches: those of the
  lines that are not empty and that decode. \<open>dispatch_all\<close> hands them to the
  dispatcher one after the other, each on the database that the one before left, and
  pairs each with its response.\<close>

definition well_formed_requests ::
  "(string \<Rightarrow> 'v JSONRPCRequest option) \<Rightarrow> string list \<Rightarrow> 'v JSONRPCRequest list" where
  "well_formed_requests Unmarshal lines =
     List.map_filter (\<lambda>line. if line = [] then None else Unmarshal line) lines"

fun dispatch_all ::
  "(db \<Rightarrow> 'v JSONRPCRequest \<Rightarrow> 'r \<times> db) \<Rightarrow> db \<Rightarrow> 'v JSONRPCRequest list \<Rightarrow>
   ('v JSONRPCRequest \<times> 'r) list \<times> db" where
  "dispatch_all H d [] = ([], d)"
| "dispatch_all H d (req # reqs) =
     (case H d req of
        (response, d1) \<Rightarrow>
          (case dispatch_all H d1 reqs of
             (trace, d2) \<Rightarrow> ((req, response) # trace, d2)))"

section \<open>Example data\<close>

text \<open>Two entities, a relation between them and an observation, as the tests of the
  package build them.\<close>

definition alice_tables :: tables where
  "alice_tables =
     \<lparr>entities = [\<lparr>Name = ''Alice'', Type = ''person''\<rparr>,
                  \<lparr>Name = ''Company'', Type = ''organization''\<rparr>],
      relations = [\<lparr>ID = 1, From = ''Alice'', To = ''Company'', RType = ''works_at''\<rparr>],
      observations = [\<lparr>OID = 1, EntityName = ''Alice'',
                       Content = ''Alice is a software engineer''\<rparr>],
      relations_seq = 1, observations_seq = 1\<rparr>"

definition alice_db :: "bool list \<Rightarrow> db" where
  "alice_db fs = \<lparr>store = alice_tables, plan = map configured fs\<rparr>"

text \<open>The calls that build \<open>alice_tables\<close> from the empty database, and the same
  followed by the deletion of the relation.\<close>

definition alice_history :: "call list" where
  "alice_history =
     [CallCreateEntity ''Alice'' ''person'',
      CallCreateEntity ''Company'' ''organization'',
      CallCreateRelation ''Alice'' ''Company'' ''works_at'',
      CallCreateObservation ''Alice'' ''Alice is a software engineer'']"

definition alice_history_deleted :: "call list" where
  "alice_history_deleted =
     alice_history @ [CallDeleteRelations [(''Alice'', ''Company'', ''works_at'')]]"

text \<open>A new handle on which the four calls of \<open>alice_history\<close> are served by the
  configured connection and the call after them by a connection that the pool opened
  later; and the history that creates, with that call, a relation from \<open>Bob\<close>, which is
  no entity.\<close>

definition pooled_db :: db where
  "pooled_db = (Init [])\<lparr>plan := replicate 4 (configured False) @ [unconfigured]\<rparr>"

definition dangling_history :: "call list" where
  "dangling_history =
     alice_history @ [CallCreateRelation ''Bob'' ''Company'' ''works_at'']"

text \<open>A store in which the only text that contains \<open>programming\<close> is an
  observation.\<close>

definition language_tables :: tables where
  "language_tables =
     \<lparr>entities = [\<lparr>Name = ''Go'', Type = ''language''\<rparr>,
                  \<lparr>Name = ''Alice'', Type = ''person''\<rparr>],
      relations = [\<lparr>ID = 1, From = ''Alice'', To = ''Go'', RType = ''uses''\<rparr>],
      observations = [\<lparr>OID = 1, EntityName = ''Go'',
                       Content = ''A Programming language''\<rparr>],
      relations_seq = 1, observations_seq = 1\<rparr>"

definition language_db :: "bool list \<Rightarrow> db" where
  "language_db fs = \<lparr>store = language_tables, plan = map configured fs\<rparr>"

text \<open>Go's \<open>strings.ToLower\<close> at one letter outside ASCII: the two bytes of \<open>U+00C9\<close>,
  the capital E with acute accent, become those of \<open>U+00E9\<close>, the small one. A
  stand-in for the Unicode tables in the examples, and a store with an entity of that
  name.\<close>

definition e_acute_lower :: "string \<Rightarrow> string" where
  "e_acute_lower s = (if s = [CHR 0xC3, CHR 0x89] then [CHR 0xC3, CHR 0xA9] else s)"

definition accent_db :: db where
  "accent_db =
     \<lparr>store = \<lparr>entities = [\<lparr>Name = [CHR 0xC3, CHR 0x89], Type = ''letter''\<rparr>],
               relations = [], observations = [],
               relations_seq = 0, observations_seq = 0\<rparr>,
      plan = []\<rparr>"

text \<open>A decoder that knows three lines, and a dispatcher that creates the entity
  named by the method of the request: stand-ins for \<open>json.Unmarshal\<close> and
  \<open>HandleJSONRPCMethod\<close> in the examples.\<close>

definition example_decoder :: "string \<Rightarrow> nat JSONRPCRequest option" where
  "example_decoder line =
     (if line = ''notify'' then
        Some \<lparr>JSONRPC = ''2.0'', ReqID = None, Method = ''Alice'', Params = None\<rparr>
      else if line = ''call'' then
        Some \<lparr>JSONRPC = ''2.0'', ReqID = Some 7, Method = ''Bob'', Params = None\<rparr>
      else if line = ''old'' then
        Some \<lparr>JSONRPC = ''1.0'', ReqID = Some 8, Method = ''Bob'', Params = None\<rparr>
      else None)"

definition create_on_request :: "db \<Rightarrow> nat JSONRPCRequest \<Rightarrow> string \<times> db" where
  "create_on_request d req = (''created'', snd (CreateEntity d (Method req) ''person''))"

section \<open>The engine, step by step\<close>

lemma engine_call_store [simp]: "store (snd (engine_call d)) = store d"
  by (simp add: engine_call_def split: list.splits)

lemma fails_within_0 [simp]: "\<not> fails_within 0 d"
  by (simp add: fails_within_def)

lemma fails_within_Suc:
  "fails_within (Suc k) d \<longleftrightarrow> engine_fails d \<or> fails_within k (snd (engine_call d))"
  by (cases "plan d")
    (auto simp: fails_within_def faults_def engine_fails_def engine_call_def configured_def)

lemma fetch_fails_within_0 [simp]: "\<not> fetch_fails_within 0 d"
  by (simp add: fetch_fails_within_def)

lemma fetch_fails_within_Suc:
  "fetch_fails_within (Suc k) d \<longleftrightarrow>
     fetched d \<noteq> None \<or> fetch_fails_within k (snd (engine_call d))"
  by (cases "plan d")
    (auto simp: fetch_fails_within_def fetched_def engine_call_def configured_def)

lemma Exec_eq:
  "Exec stmt d =
     (if engine_fails d then (Inl StorageFailure, snd (engine_call d))
      else case stmt (enforces d) (store d) of
             Inl e \<Rightarrow> (Inl e, snd (engine_call d))
           | Inr (r, t) \<Rightarrow> (Inr r, (snd (engine_call d))\<lparr>store := t\<rparr>))"
  using engine_call_store[of d]
  by (cases "engine_call d") (auto simp: Exec_def engine_fails_def enforces_def split: sum.splits)

lemma QueryRow_eq:
  "QueryRow q d =
     (if engine_fails d then (Inl StorageFailure, snd (engine_call d))
      else (Inr (q (store d)), snd (engine_call d)))"
  using engine_call_store[of d]
  by (cases "engine_call d") (auto simp: QueryRow_def engine_fails_def)

lemma QueryRows_eq:
  "QueryRows q d =
     (if engine_fails d then (Inl StorageFailure, snd (engine_call d))
      else (Inr (fetch (fetched d) (q (store d))), snd (engine_call d)))"
  using engine_call_store[of d]
  by (cases "engine_call d") (auto simp: QueryRows_def engine_fails_def fetched_def)

lemma Begin_eq:
  "Begin d =
     (if engine_fails d then (Inl StorageFailure, snd (engine_call d))
      else (Inr \<lparr>working = store d, enforcing = enforces d\<rparr>, snd (engine_call d)))"
  using engine_call_store[of d]
  by (cases "engine_call d") (auto simp: Begin_def engine_fails_def enforces_def)

lemma TxExec_eq:
  "TxExec stmt tx d =
     (if engine_fails d then (Inl StorageFailure, snd (engine_call d))
      else case stmt (enforcing tx) (working tx) of
             Inl e \<Rightarrow> (Inl e, snd (engine_call d))
           | Inr (r, t) \<Rightarrow> (Inr (r, tx\<lparr>working := t\<rparr>), snd (engine_call d)))"
  by (cases "engine_call d") (auto simp: TxExec_def engine_fails_def split: sum.splits)

lemma Commit_eq:
  "Commit tx d =
     (if engine_fails d then (Some StorageFailure, snd (engine_call d))
      else (None, (snd (engine_call d))\<lparr>store := working tx\<rparr>))"
  by (cases "engine_call d") (auto simp: Commit_def engine_fails_def)

lemma engine_fails_no_faults [simp]: "plan d = [] \<Longrightarrow> \<not> engine_fails d"
  by (simp add: engine_fails_def engine_call_def configured_def)

lemma fails_within_no_faults [simp]: "plan d = [] \<Longrightarrow> \<not> fails_within k d"
  by (simp add: fails_within_def faults_def)

lemma enforces_no_plan [simp]: "plan d = [] \<Longrightarrow> enforces d"
  by (simp add: enforces_def engine_call_def configured_def)

lemma fetched_no_plan [simp]: "plan d = [] \<Longrightarrow> fetched d = None"
  by (simp add: fetched_def engine_call_def configured_def)

lemma fetch_fails_within_no_plan [simp]: "plan d = [] \<Longrightarrow> \<not> fetch_fails_within k d"
  by (simp add: fetch_fails_within_def)

lemma fetch_take [simp]: "set (fetch stop rows) \<subseteq> set rows"
  by (auto simp: fetch_def dest: in_set_takeD split: option.splits)

lemma fetch_distinct [simp]: "distinct rows \<Longrightarrow> distinct (fetch stop rows)"
  by (simp add: fetch_def split: option.splits)

lemma fetch_None [simp]: "fetch None rows = rows"
  by (simp add: fetch_def)

lemma fetch_Nil [simp]: "fetch stop [] = []"
  by (simp add: fetch_def split: option.splits)

section \<open>Cascading deletion\<close>

lemma delete_entities_named_after:
  "delete_entities_named names fk
     (t\<lparr>relations := filter (\<lambda>r. From r \<notin> set names \<and> To r \<notin> set names) (relations t),
        observations := filter (\<lambda>ob. EntityName ob \<notin> set names) (observations t)\<rparr>)
   = Inr ((), cascade names t)"
  by (auto simp: delete_entities_named_def cascade_def list_ex_iff Let_def)

lemma cascade_Nil [simp]: "cascade [] t = t"
  by (simp add: cascade_def)

lemma DeleteEntities_eq:
  "fst (DeleteEntities d names) =
     (if names = [] \<or> \<not> fails_within 5 d then None else Some StorageFailure) \<and>
   store (snd (DeleteEntities d names)) =
     (if names = [] \<or> fails_within 5 d then store d else cascade names (store d))"
proof (cases "names = []")
  case True
  then show ?thesis
    by (simp add: DeleteEntities_def)
next
  case False
  let ?d1 = "snd (engine_call d)"
  let ?d2 = "snd (engine_call ?d1)"
  let ?d3 = "snd (engine_call ?d2)"
  let ?d4 = "snd (engine_call ?d3)"
  have five: "fails_within 5 d \<longleftrightarrow>
      engine_fails d \<or> engine_fails ?d1 \<or> engine_fails ?d2 \<or> engine_fails ?d3 \<or> engine_fails ?d4"
    by (simp add: eval_nat_numeral fails_within_Suc)
  from False show ?thesis
    unfolding five
    by (auto simp: DeleteEntities_def Begin_eq TxExec_eq Commit_eq delete_relations_touching_def
        delete_observations_of_def delete_entities_named_after)
qed

text \<open>
  C1. \<open>DeleteEntities\<close> is all or nothing. When none of its five calls into the engine
  (begin, the three deletions in the order relations, observations, entities, and commit)
  fails, it returns no error and leaves the tables without the relations that touch a
  named entity, without the observations of a named entity and without the named
  entities; every other row, and so every entity that is not named, stays as it was.
  When one of the calls fails, whichever it is, the error is returned and the tables
  are those from before the call: no entity is deleted. The deletions never fail on a
  foreign key, because the referring rows go first.
\<close>

theorem DeleteEntities_cascade:
  "DeleteEntities d names = (res, d') \<Longrightarrow>
     (if names = [] \<or> \<not> fails_within 5 d
      then res = None \<and> store d' = cascade names (store d)
      else res = Some StorageFailure \<and> store d' = store d)"
proof -
  assume "DeleteEntities d names = (res, d')"
  then have "res = fst (DeleteEntities d names)" and "d' = snd (DeleteEntities d names)"
    by simp_all
  then show ?thesis
    using DeleteEntities_eq[of d names] by auto
qed

theorem DeleteEntities_cascade_witness:
  "fst (DeleteEntities (alice_db []) [''Alice'']) = None \<and>
   entities (store (snd (DeleteEntities (alice_db []) [''Alice''])))
     = [\<lparr>Name = ''Company'', Type = ''organization''\<rparr>] \<and>
   relations (store (snd (DeleteEntities (alice_db []) [''Alice'']))) = [] \<and>
   observations (store (snd (DeleteEntities (alice_db []) [''Alice'']))) = [] \<and>
   fst (DeleteEntities (alice_db [False, False, False, True]) [''Alice'']) = Some StorageFailure \<and>
   store (snd (DeleteEntities (alice_db [False, False, False, True]) [''Alice''])) = alice_tables"
  using DeleteEntities_cascade[OF surjective_pairing, where d = "alice_db []" and names = "[''Alice'']"]
    DeleteEntities_cascade[OF surjective_pairing,
      where d = "alice_db [False, False, False, True]" and names = "[''Alice'']"]
  by (simp add: alice_db_def alice_tables_def cascade_def fails_within_def faults_def
      configured_def)

section \<open>Creating entities\<close>

lemma CreateEntity_eq:
  "CreateEntity d n ty =
     (if engine_fails d then (Some StorageFailure, snd (engine_call d))
      else if entity_exists (store d) n then (None, snd (engine_call d))
      else (None, (snd (engine_call d))
              \<lparr>store := (store d)\<lparr>entities := entities (store d) @ [\<lparr>Name = n, Type = ty\<rparr>]\<rparr>\<rparr>))"
  by (simp add: CreateEntity_def Exec_eq insert_or_ignore_entity_def)

lemma CreateEntity_result:
  "fst (CreateEntity d n ty) = (if engine_fails d then Some StorageFailure else None)"
  by (simp add: CreateEntity_eq)

lemma CreateEntity_store:
  "store (snd (CreateEntity d n ty)) =
     (if engine_fails d \<or> entity_exists (store d) n then store d
      else (store d)\<lparr>entities := entities (store d) @ [\<lparr>Name = n, Type = ty\<rparr>]\<rparr>)"
  by (simp add: CreateEntity_eq)

lemma filter_key_absent: "k \<notin> f ` set xs \<Longrightarrow> filter (\<lambda>e. f e = k) xs = []"
  by (induction xs) auto

lemma filter_key_distinct:
  "distinct (map f xs) \<Longrightarrow> k \<in> f ` set xs \<Longrightarrow> length (filter (\<lambda>e. f e = k) xs) = 1"
  by (induction xs) (auto simp: filter_key_absent)

lemma count_existing:
  "distinct (map Name (entities t)) \<Longrightarrow> entity_exists t n \<Longrightarrow>
     length (filter (\<lambda>e. Name e = n) (entities t)) = 1"
  by (simp add: entity_exists_def filter_key_distinct)

lemma count_absent:
  "\<not> entity_exists t n \<Longrightarrow> filter (\<lambda>e. Name e = n) (entities t) = []"
  by (simp add: entity_exists_def filter_key_absent)

text \<open>
  C3. \<open>CreateEntity\<close> returns an error exactly when its call into the storage engine
  fails, whether or not the name is taken. On tables whose entity names are unique (the
  primary key), two calls with the same name, of which at least one gets through to
  the engine, leave exactly one entity with that name; when the engine fails neither
  call, neither returns an error.
\<close>

theorem CreateEntity_twice:
  assumes "distinct (map Name (entities (store d)))"
    and "CreateEntity d name ty = (r1, d1)"
    and "CreateEntity d1 name ty' = (r2, d2)"
  shows "r1 = (if engine_fails d then Some StorageFailure else None) \<and>
         r2 = (if engine_fails d1 then Some StorageFailure else None) \<and>
         (r1 = None \<or> r2 = None \<longrightarrow>
            length (filter (\<lambda>e. Name e = name) (entities (store d2))) = 1)"
proof -
  have r1: "r1 = (if engine_fails d then Some StorageFailure else None)"
    using assms(2) CreateEntity_result[of d name ty] by simp
  have r2: "r2 = (if engine_fails d1 then Some StorageFailure else None)"
    using assms(3) CreateEntity_result[of d1 name ty'] by simp
  have step: "length (filter (\<lambda>e. Name e = name) (entities (store (snd (CreateEntity x name tz))))) = 1"
    if "\<not> engine_fails x" "distinct (map Name (entities (store x)))" for x tz
    using that by (cases "entity_exists (store x) name")
      (simp_all add: CreateEntity_store count_existing count_absent)
  have keep: "store (snd (CreateEntity x name tz)) = store x"
    if "engine_fails x \<or> entity_exists (store x) name" for x tz
    using that by (auto simp: CreateEntity_store)
  have exists: "entity_exists (store (snd (CreateEntity x name tz))) name"
    if "\<not> engine_fails x" for x tz
    using that by (simp add: CreateEntity_store entity_exists_def)
  have d1: "d1 = snd (CreateEntity d name ty)" and d2: "d2 = snd (CreateEntity d1 name ty')"
    using assms(2,3) by simp_all
  have count: "length (filter (\<lambda>e. Name e = name) (entities (store d2))) = 1"
    if ok: "r1 = None \<or> r2 = None"
  proof (cases "engine_fails d")
    case True
    with ok r1 r2 have "\<not> engine_fails d1" by (auto split: if_splits)
    moreover from True have "store d1 = store d" unfolding d1 by (rule keep[OF disjI1])
    ultimately show ?thesis
      unfolding d2 using assms(1) by (intro step) simp_all
  next
    case False
    then have "entity_exists (store d1) name" unfolding d1 by (rule exists)
    then have "store d2 = store d1" unfolding d2 by (intro keep disjI2)
    then show ?thesis
      unfolding d1 using step[OF False assms(1)] by simp
  qed
  from r1 r2 count show ?thesis by blast
qed

theorem CreateEntity_twice_witness:
  "fst (CreateEntity (Init []) ''Alice'' ''person'') = None \<and>
   fst (CreateEntity (snd (CreateEntity (Init []) ''Alice'' ''person'')) ''Alice'' ''person'') = None \<and>
   length (filter (\<lambda>e. Name e = ''Alice'')
     (entities (store (snd (CreateEntity (snd (CreateEntity (Init []) ''Alice'' ''person''))
        ''Alice'' ''person''))))) = 1"
proof -
  have wf: "distinct (map Name (entities (store (Init []))))"
    by (simp add: Init_def)
  have ok1: "\<not> engine_fails (Init [])"
    by (simp add: Init_def)
  have ok2: "\<not> engine_fails (snd (CreateEntity (Init []) ''Alice'' ''person''))"
    by (simp add: CreateEntity_eq Init_def engine_call_def)
  from CreateEntity_twice[OF wf surjective_pairing surjective_pairing, of "''Alice''" "''person''" "''person''"]
    ok1 ok2
  show ?thesis by simp
qed

text \<open>
  C10. When an entity with the given name is stored, \<open>CreateEntity\<close> with that name and
  any type, the same or another, leaves the tables exactly as they were: the stored
  entity keeps its type and no other row changes. The call returns no error unless the
  storage engine fails.
\<close>

theorem CreateEntity_duplicate_ignored:
  assumes "\<lparr>Name = name, Type = ty\<rparr> \<in> set (entities (store d))"
    and "CreateEntity d name ty' = (res, d')"
  shows "res = (if engine_fails d then Some StorageFailure else None) \<and>
         store d' = store d \<and>
         \<lparr>Name = name, Type = ty\<rparr> \<in> set (entities (store d'))"
proof -
  from assms(1) have "entity_exists (store d) name"
    by (force simp: entity_exists_def)
  with assms show ?thesis
    by (auto simp: CreateEntity_eq split: if_splits)
qed

theorem CreateEntity_duplicate_ignored_witness:
  "fst (CreateEntity (alice_db []) ''Alice'' ''robot'') = None \<and>
   store (snd (CreateEntity (alice_db []) ''Alice'' ''robot'')) = alice_tables \<and>
   \<lparr>Name = ''Alice'', Type = ''person''\<rparr>
     \<in> set (entities (store (snd (CreateEntity (alice_db []) ''Alice'' ''robot''))))"
proof -
  have stored: "\<lparr>Name = ''Alice'', Type = ''person''\<rparr> \<in> set (entities (store (alice_db [])))"
    by (simp add: alice_db_def alice_tables_def)
  have ok: "\<not> engine_fails (alice_db [])"
    by (simp add: alice_db_def)
  from CreateEntity_duplicate_ignored[OF stored surjective_pairing, of "''robot''"] ok
  show ?thesis by (simp add: alice_db_def alice_tables_def)
qed

section \<open>Row ids\<close>

lemma fold_max_ge: "(s::int) \<le> fold max ids s"
  by (induction ids arbitrary: s) (auto intro: order_trans[OF max.cobounded2])

lemma fold_max_mem: "i \<in> set ids \<Longrightarrow> (i::int) \<le> fold max ids s"
  by (induction ids arbitrary: s) (auto intro: order_trans[OF max.cobounded1 fold_max_ge])

lemma next_id_gt_seq: "s < next_id s ids"
  using fold_max_ge[of s ids] by (simp add: next_id_def)

lemma next_id_gt_mem: "i \<in> set ids \<Longrightarrow> i < next_id s ids"
  using fold_max_mem[of i ids s] by (simp add: next_id_def)

lemma CreateRelation_eq:
  "CreateRelation d f t ty =
     (if engine_fails d then (Inl StorageFailure, snd (engine_call d))
      else if enforces d \<and> (\<not> entity_exists (store d) f \<or> \<not> entity_exists (store d) t)
        then (Inl ForeignKeyFailed, snd (engine_call d))
      else
        (Inr (next_id (relations_seq (store d)) (map ID (relations (store d)))),
         (snd (engine_call d))
           \<lparr>store := (store d)
              \<lparr>relations := relations (store d) @
                 [\<lparr>ID = next_id (relations_seq (store d)) (map ID (relations (store d))),
                   From = f, To = t, RType = ty\<rparr>],
               relations_seq := next_id (relations_seq (store d)) (map ID (relations (store d)))\<rparr>\<rparr>))"
  by (auto simp: CreateRelation_def Exec_eq insert_relation_def Let_def)

lemma CreateObservation_eq:
  "CreateObservation d n c =
     (if engine_fails d then (Inl StorageFailure, snd (engine_call d))
      else if enforces d \<and> \<not> entity_exists (store d) n
        then (Inl ForeignKeyFailed, snd (engine_call d))
      else
        (Inr (OID (new_observation (store d) (n, c))),
         (snd (engine_call d))\<lparr>store := with_observation (store d) (n, c)\<rparr>))"
  by (auto simp: CreateObservation_def Exec_eq insert_observation_def Let_def
      new_observation_def with_observation_def)

section \<open>Going through a batch\<close>

lemma with_observation_frame [simp]:
  "entities (with_observation t item) = entities t"
  "relations (with_observation t item) = relations t"
  "relations_seq (with_observation t item) = relations_seq t"
  by (simp_all add: with_observation_def Let_def)

lemma entity_exists_with_observation [simp]:
  "entity_exists (with_observation t item) n = entity_exists t n"
  by (simp add: entity_exists_def)

lemma AddObservations_loop_Cons:
  "AddObservations_loop d ((n, c) # rest) acc =
     (if engine_fails d then (Inl StorageFailure, snd (engine_call d))
      else if \<not> entity_exists (store d) n then (Inl (EntityDoesNotExist n), snd (engine_call d))
      else if engine_fails (snd (engine_call d))
        then (Inl StorageFailure, snd (engine_call (snd (engine_call d))))
      else AddObservations_loop
             ((snd (engine_call (snd (engine_call d))))\<lparr>store := with_observation (store d) (n, c)\<rparr>)
             rest (acc @ [new_observation (store d) (n, c)]))"
  by (simp add: QueryRow_eq CreateObservation_eq new_observation_def)

lemma AddObservations_loop_frame:
  "entities (store (snd (AddObservations_loop d items acc))) = entities (store d) \<and>
   relations (store (snd (AddObservations_loop d items acc))) = relations (store d) \<and>
   relations_seq (store (snd (AddObservations_loop d items acc))) = relations_seq (store d)"
proof (induction items arbitrary: d acc)
  case Nil
  then show ?case by simp
next
  case (Cons item items)
  obtain n c where item: "item = (n, c)" by (cases item)
  show ?case
    unfolding item AddObservations_loop_Cons using Cons.IH by simp
qed

lemma DeleteRelations_loop_Cons:
  "DeleteRelations_loop d ((f, t, ty) # rest) =
     (if engine_fails d then (Some StorageFailure, snd (engine_call d))
      else DeleteRelations_loop
             ((snd (engine_call d))\<lparr>store := (store d)\<lparr>relations :=
                 filter (\<lambda>r. \<not> (From r = f \<and> To r = t \<and> RType r = ty)) (relations (store d))\<rparr>\<rparr>)
             rest)"
  by (simp add: Exec_eq delete_relation_exact_def)

lemma DeleteObservations_loop_Cons:
  "DeleteObservations_loop d ((n, obs) # rest) =
     (if obs = [] then DeleteObservations_loop d rest
      else if engine_fails d then (Some StorageFailure, snd (engine_call d))
      else DeleteObservations_loop
             ((snd (engine_call d))\<lparr>store := (store d)\<lparr>observations :=
                 filter (\<lambda>ob. \<not> (EntityName ob = n \<and> Content ob \<in> set obs)) (observations (store d))\<rparr>\<rparr>)
             rest)"
  by (simp add: Exec_eq delete_observations_matching_def)

lemma shrinks_refl [simp]: "shrinks t t"
  unfolding shrinks_def by (auto intro: exI[of _ "\<lambda>_. True"])

lemma shrinks_trans: "shrinks t t' \<Longrightarrow> shrinks t' t'' \<Longrightarrow> shrinks t t''"
  unfolding shrinks_def by (metis filter_filter)

lemma shrinks_relations: "shrinks t (t\<lparr>relations := filter P (relations t)\<rparr>)"
  unfolding shrinks_def by (auto intro: exI[of _ "\<lambda>_. True"])

lemma shrinks_observations: "shrinks t (t\<lparr>observations := filter P (observations t)\<rparr>)"
  unfolding shrinks_def by (auto intro: exI[of _ "\<lambda>_. True"])

lemma DeleteRelations_loop_shrinks:
  "shrinks (store d) (store (snd (DeleteRelations_loop d rels)))"
proof (induction rels arbitrary: d)
  case Nil
  then show ?case by simp
next
  case (Cons k rels)
  obtain f t ty where k: "k = (f, t, ty)" by (cases k)
  let ?d1 = "(snd (engine_call d))\<lparr>store := (store d)\<lparr>relations :=
                 filter (\<lambda>r. \<not> (From r = f \<and> To r = t \<and> RType r = ty)) (relations (store d))\<rparr>\<rparr>"
  have "shrinks (store d) (store ?d1)"
    using shrinks_relations[of "store d"] by simp
  then have "shrinks (store d) (store (snd (DeleteRelations_loop ?d1 rels)))"
    using Cons.IH[of ?d1] by (rule shrinks_trans)
  then show ?case
    unfolding k DeleteRelations_loop_Cons by simp
qed

lemma DeleteObservations_loop_shrinks:
  "shrinks (store d) (store (snd (DeleteObservations_loop d dels)))"
proof (induction dels arbitrary: d)
  case Nil
  then show ?case by simp
next
  case (Cons k dels)
  obtain n obs where k: "k = (n, obs)" by (cases k)
  let ?d1 = "(snd (engine_call d))\<lparr>store := (store d)\<lparr>observations :=
                 filter (\<lambda>ob. \<not> (EntityName ob = n \<and> Content ob \<in> set obs)) (observations (store d))\<rparr>\<rparr>"
  have "shrinks (store d) (store ?d1)"
    using shrinks_observations[of "store d"] by simp
  then have "shrinks (store d) (store (snd (DeleteObservations_loop ?d1 dels)))"
    using Cons.IH[of ?d1] by (rule shrinks_trans)
  then show ?case
    unfolding k DeleteObservations_loop_Cons using Cons.IH[of d] by simp
qed

lemma faults_store [simp]: "faults (d\<lparr>store := t\<rparr>) = faults d"
  by (simp add: faults_def)

lemma faults_handle [simp]: "faults \<lparr>store = t, plan = p\<rparr> = map engine_error p"
  by (simp add: faults_def)

lemma engine_error_configured [simp]: "engine_error (configured b) = b"
  by (simp add: configured_def)

lemma fails_within_store [simp]: "fails_within k (d\<lparr>store := t\<rparr>) = fails_within k d"
  by (simp add: fails_within_def)

lemma fetch_fails_within_store [simp]:
  "fetch_fails_within k (d\<lparr>store := t\<rparr>) = fetch_fails_within k d"
  by (simp add: fetch_fails_within_def)

lemma enforces_store [simp]: "enforces (d\<lparr>store := t\<rparr>) = enforces d"
  by (simp add: enforces_def engine_call_def split: list.splits)

lemma fetched_store [simp]: "fetched (d\<lparr>store := t\<rparr>) = fetched d"
  by (simp add: fetched_def engine_call_def split: list.splits)

lemma engine_fails_store [simp]: "engine_fails (d\<lparr>store := t\<rparr>) = engine_fails d"
  by (simp add: engine_fails_def engine_call_def split: list.splits)

lemma fold_with_observation_exists [simp]:
  "entity_exists (fold (\<lambda>it t. with_observation t it) pre t) n = entity_exists t n"
  by (induction pre arbitrary: t) simp_all

section \<open>Histories\<close>

lemma ReadGraph_store [simp]: "store (snd (ReadGraph d)) = store d"
  by (simp add: ReadGraph_def QueryRows_eq)

lemma SearchNodes_store [simp]: "store (snd (SearchNodes ul d q)) = store d"
  by (simp add: SearchNodes_def QueryRows_eq Let_def)

lemma OpenNodes_store [simp]: "store (snd (OpenNodes d names)) = store d"
  by (simp add: OpenNodes_def QueryRows_eq)

text \<open>The recorded largest relation id never decreases, and every id handed out lies
  between its value before the call and its value after.\<close>

lemma perform_seq:
  "relations_seq (store d) \<le> relations_seq (store (snd (perform ul d c))) \<and>
   (\<forall>i \<in> set (fst (perform ul d c)).
      relations_seq (store d) < i \<and> i \<le> relations_seq (store (snd (perform ul d c))))"
proof (cases c)
  case (CallCreateEntity n ty)
  then show ?thesis by (simp add: CreateEntity_store)
next
  case (CallCreateRelation f t ty)
  then show ?thesis
    using next_id_gt_seq[of "relations_seq (store d)" "map ID (relations (store d))"]
    by (simp add: CreateRelation_eq)
next
  case (CallCreateObservation n c)
  then show ?thesis by (simp add: CreateObservation_eq)
next
  case (CallAddObservations batch)
  then show ?thesis by (simp add: AddObservations_def AddObservations_loop_frame)
next
  case (CallDeleteEntities names)
  then show ?thesis using DeleteEntities_eq[of d names] by (simp add: cascade_def)
next
  case (CallDeleteObservations dels)
  then show ?thesis
    using DeleteObservations_loop_shrinks[of d dels]
    by (simp add: DeleteObservations_def shrinks_def)
next
  case (CallDeleteRelations rels)
  then show ?thesis
    using DeleteRelations_loop_shrinks[of d rels]
    by (simp add: DeleteRelations_def shrinks_def)
qed simp_all

lemma run_seq:
  "relations_seq (store d) \<le> relations_seq (store (snd (run ul d cs))) \<and>
   (\<forall>i \<in> set (fst (run ul d cs)).
      relations_seq (store d) < i \<and> i \<le> relations_seq (store (snd (run ul d cs))))"
proof (induction cs arbitrary: d)
  case Nil
  then show ?case by simp
next
  case (Cons c cs)
  obtain ids d1 where p: "perform ul d c = (ids, d1)" by (cases "perform ul d c")
  obtain ids' d2 where r: "run ul d1 cs = (ids', d2)" by (cases "run ul d1 cs")
  from perform_seq[of d ul c] p
  have a: "relations_seq (store d) \<le> relations_seq (store d1)"
    and b: "\<forall>i \<in> set ids. relations_seq (store d) < i \<and> i \<le> relations_seq (store d1)"
    by simp_all
  from Cons.IH[of d1] r
  have a': "relations_seq (store d1) \<le> relations_seq (store d2)"
    and b': "\<forall>i \<in> set ids'. relations_seq (store d1) < i \<and> i \<le> relations_seq (store d2)"
    by simp_all
  from a b a' b' show ?case
    by (auto simp: p r)
qed

text \<open>
  \<open>CreateRelation\<close> after any history of calls on the handle. When its call into the
  storage engine fails it returns that failure. When the connection that serves it
  enforces the foreign keys and one of the two endpoints is not a stored entity it
  returns the foreign key error. In both cases the tables are unchanged. Otherwise it
  stores the relation under an id and returns the id, which differs from the id of
  every stored relation and from every id that an earlier call of the history handed
  out, also for relations that have been deleted since.
\<close>

theorem CreateRelation_on_connection:
  assumes "run ul d0 history = (handed_out, d)"
    and "CreateRelation d from to ty = (res, d')"
  shows
    "if engine_fails d then res = Inl StorageFailure \<and> store d' = store d
     else if enforces d \<and> \<not> (entity_exists (store d) from \<and> entity_exists (store d) to)
       then res = Inl ForeignKeyFailed \<and> store d' = store d
     else (\<exists>i. res = Inr i \<and> i \<notin> set handed_out \<and> i \<notin> set (map ID (relations (store d))) \<and>
            store d' = (store d)\<lparr>relations := relations (store d) @
                          [\<lparr>ID = i, From = from, To = to, RType = ty\<rparr>],
                        relations_seq := i\<rparr>)"
proof -
  let ?i = "next_id (relations_seq (store d)) (map ID (relations (store d)))"
  have "\<forall>i \<in> set handed_out. i \<le> relations_seq (store d)"
    using run_seq[of d0 ul history] assms(1) by simp
  then have fresh: "?i \<notin> set handed_out"
    using next_id_gt_seq[of "relations_seq (store d)" "map ID (relations (store d))"] by force
  have new: "?i \<notin> set (map ID (relations (store d)))"
    using next_id_gt_mem[of ?i "map ID (relations (store d))" "relations_seq (store d)"] by blast
  from assms(2) fresh new show ?thesis
    by (auto simp: CreateRelation_eq split: if_splits)
qed

theorem CreateRelation_on_connection_witness:
  "fst (run (\<lambda>s. s) (Init []) alice_history_deleted) = [1] \<and>
   relations (store (snd (run (\<lambda>s. s) (Init []) alice_history_deleted))) = [] \<and>
   fst (CreateRelation (snd (run (\<lambda>s. s) (Init []) alice_history_deleted))
         ''Company'' ''Alice'' ''employs'') = Inr 2 \<and>
   fst (CreateRelation (snd (run (\<lambda>s. s) (Init []) alice_history_deleted))
         ''Bob'' ''Company'' ''works_at'') = Inl ForeignKeyFailed \<and>
   store (snd (CreateRelation (snd (run (\<lambda>s. s) (Init []) alice_history_deleted))
         ''Bob'' ''Company'' ''works_at''))
     = store (snd (run (\<lambda>s. s) (Init []) alice_history_deleted))"
proof -
  let ?d = "snd (run (\<lambda>s. s) (Init []) alice_history_deleted)"
  have ran: "fst (run (\<lambda>s. s) (Init []) alice_history_deleted) = [1]"
    by code_simp
  have gone: "relations (store ?d) = []"
    by code_simp
  have ok: "\<not> engine_fails ?d"
    by code_simp
  have on: "enforces ?d"
    by code_simp
  have bob: "\<not> entity_exists (store ?d) ''Bob''"
    by code_simp
  have two: "fst (CreateRelation ?d ''Company'' ''Alice'' ''employs'') = Inr 2"
    by code_simp
  from CreateRelation_on_connection[OF surjective_pairing surjective_pairing,
      of "\<lambda>s. s" "Init []" alice_history_deleted "''Bob''" "''Company''" "''works_at''"] ok on bob
  have "fst (CreateRelation ?d ''Bob'' ''Company'' ''works_at'') = Inl ForeignKeyFailed"
    and "store (snd (CreateRelation ?d ''Bob'' ''Company'' ''works_at'')) = store ?d"
    by simp_all
  with ran gone two show ?thesis by simp
qed

text \<open>
  C4. The source means the foreign keys to be enforced: \<open>Init\<close> switches them on
  (\<open>// enable foreign keys\<close>) and the tests of the package expect the creation of a
  relation from an entity that does not exist to fail. They are enforced on one
  connection of the pool only. Below, the entities \<open>Alice\<close> and \<open>Company\<close> and their
  relation are created by calls that the configured connection serves; the next call,
  served by a connection that the pool opened later, creates a relation from \<open>Bob\<close>,
  which is no entity: it returns the new id 2 and no error, and the relation is
  stored.
\<close>

theorem CreateRelation_unenforced:
  "store (snd (run (\<lambda>s. s) pooled_db alice_history)) = alice_tables \<and>
   \<not> entity_exists alice_tables ''Bob'' \<and>
   fst (CreateRelation (snd (run (\<lambda>s. s) pooled_db alice_history))
         ''Bob'' ''Company'' ''works_at'') = Inr 2 \<and>
   relations (store (snd (CreateRelation (snd (run (\<lambda>s. s) pooled_db alice_history))
         ''Bob'' ''Company'' ''works_at'')))
     = [\<lparr>ID = 1, From = ''Alice'', To = ''Company'', RType = ''works_at''\<rparr>,
        \<lparr>ID = 2, From = ''Bob'', To = ''Company'', RType = ''works_at''\<rparr>]"
  by code_simp

section \<open>Adding observations\<close>

lemma AddObservations_loop_missing:
  assumes "\<forall>it \<in> set pre. entity_exists (store d) (fst it)"
    and "\<not> entity_exists (store d) n"
    and "\<not> fails_within (2 * length pre + 1) d"
  shows "fst (AddObservations_loop d (pre @ (n, c) # post) acc) = Inl (EntityDoesNotExist n) \<and>
         store (snd (AddObservations_loop d (pre @ (n, c) # post) acc))
           = fold (\<lambda>it t. with_observation t it) pre (store d)"
  using assms
proof (induction pre arbitrary: d acc)
  case Nil
  then show ?case
    by (simp add: AddObservations_loop_Cons fails_within_Suc del: AddObservations_loop.simps)
next
  case (Cons item pre)
  obtain m c' where item: "item = (m, c')" by (cases item)
  let ?d2 = "(snd (engine_call (snd (engine_call d))))\<lparr>store := with_observation (store d) (m, c')\<rparr>"
  from Cons.prems(3) have ok: "\<not> engine_fails d" "\<not> engine_fails (snd (engine_call d))"
    and rest: "\<not> fails_within (2 * length pre + 1) ?d2"
    by (simp_all add: fails_within_Suc)
  from Cons.prems(1) item have ex: "entity_exists (store d) m" by simp
  have "\<forall>it \<in> set pre. entity_exists (store ?d2) (fst it)" "\<not> entity_exists (store ?d2) n"
    using Cons.prems(1,2) by simp_all
  from Cons.IH[OF this rest] ok ex show ?case
    by (simp add: item AddObservations_loop_Cons del: AddObservations_loop.simps)
qed

text \<open>
  C2, as the source has it. \<open>AddObservations\<close> opens no transaction: every observation
  is stored by a statement of its own. When the items before the first one that names
  a missing entity all name stored entities, and the storage engine fails none of the
  calls made for them, the call returns the error for that first missing entity and
  no observations, so the caller receives no ids; the observations of the items before
  it have been stored and stay stored; the item itself and the items after it are not
  applied.
\<close>

theorem AddObservations_first_missing:
  assumes "\<forall>it \<in> set pre. entity_exists (store d) (fst it)"
    and "\<not> entity_exists (store d) n"
    and "\<not> fails_within (2 * length pre + 1) d"
    and "AddObservations d (pre @ (n, c) # post) = (res, d')"
  shows "res = Inl (EntityDoesNotExist n) \<and>
         store d' = fold (\<lambda>it t. with_observation t it) pre (store d)"
  using AddObservations_loop_missing[OF assms(1-3), of c post "[]"] assms(4)
  by (simp add: AddObservations_def)

theorem AddObservations_first_missing_witness:
  "fst (AddObservations (alice_db [])
          [(''Alice'', ''likes tea''), (''Bob'', ''unknown''), (''Company'', ''hires'')])
     = Inl (EntityDoesNotExist ''Bob'') \<and>
   store (snd (AddObservations (alice_db [])
          [(''Alice'', ''likes tea''), (''Bob'', ''unknown''), (''Company'', ''hires'')]))
     = with_observation alice_tables (''Alice'', ''likes tea'')"
proof -
  have pre: "\<forall>it \<in> set [(''Alice'', ''likes tea'')]. entity_exists (store (alice_db [])) (fst it)"
    by (simp add: alice_db_def alice_tables_def entity_exists_def)
  have missing: "\<not> entity_exists (store (alice_db [])) ''Bob''"
    by (simp add: alice_db_def alice_tables_def entity_exists_def)
  have ok: "\<not> fails_within (2 * length [(''Alice'', ''likes tea'')] + 1) (alice_db [])"
    by (simp add: alice_db_def)
  from AddObservations_first_missing[OF pre missing ok, of "''unknown''" "[(''Company'', ''hires'')]",
      OF surjective_pairing]
  show ?thesis by (simp add: alice_db_def)
qed

text \<open>C2 as it was stated, that no observation of a failing call is stored, does not
  hold: the call below fails on \<open>Bob\<close>, and the observation for \<open>Alice\<close> is
  stored.\<close>

theorem AddObservations_partial:
  "\<not> entity_exists (store (alice_db [])) ''Bob'' \<and>
   fst (AddObservations (alice_db []) [(''Alice'', ''likes tea''), (''Bob'', ''unknown'')])
     = Inl (EntityDoesNotExist ''Bob'') \<and>
   observations (store (snd (AddObservations (alice_db [])
       [(''Alice'', ''likes tea''), (''Bob'', ''unknown'')])))
     = [\<lparr>OID = 1, EntityName = ''Alice'', Content = ''Alice is a software engineer''\<rparr>,
        \<lparr>OID = 2, EntityName = ''Alice'', Content = ''likes tea''\<rparr>]"
  by code_simp

section \<open>Deleting relations\<close>

lemma survives_le: "survives fs n \<le> n"
  by (induction fs n rule: survives.induct) auto

lemma survives_Suc:
  "survives (faults d) (Suc n) =
     (if engine_fails d then 0 else Suc (survives (faults (snd (engine_call d))) n))"
  by (cases "plan d"; cases n)
    (auto simp: faults_def engine_fails_def engine_call_def configured_def)

lemma DeleteRelations_loop_eq:
  "fst (DeleteRelations_loop d rels) =
     (if survives (faults d) (length rels) < length rels then Some StorageFailure else None) \<and>
   store (snd (DeleteRelations_loop d rels)) =
     (store d)\<lparr>relations :=
        filter (\<lambda>r. relation_key r \<notin> set (take (survives (faults d) (length rels)) rels))
          (relations (store d))\<rparr>"
proof (induction rels arbitrary: d)
  case Nil
  then show ?case by simp
next
  case (Cons k rels)
  obtain f t ty where k: "k = (f, t, ty)" by (cases k)
  let ?d1 = "(snd (engine_call d))\<lparr>store := (store d)\<lparr>relations :=
                 filter (\<lambda>r. \<not> (From r = f \<and> To r = t \<and> RType r = ty)) (relations (store d))\<rparr>\<rparr>"
  show ?case
  proof (cases "engine_fails d")
    case True
    then show ?thesis
      unfolding k DeleteRelations_loop_Cons by (simp add: survives_Suc)
  next
    case False
    have "filter (\<lambda>r. relation_key r \<notin> set (take (survives (faults ?d1) (length rels)) rels))
            (filter (\<lambda>r. \<not> (From r = f \<and> To r = t \<and> RType r = ty)) (relations (store d)))
          = filter (\<lambda>r. relation_key r \<notin> set ((f, t, ty) # take (survives (faults ?d1) (length rels)) rels))
              (relations (store d))"
      by (auto simp: relation_key_def intro: filter_cong)
    with False Cons.IH[of ?d1] show ?thesis
      unfolding k DeleteRelations_loop_Cons by (simp add: survives_Suc)
  qed
qed

text \<open>
  C7, as the source has it. \<open>DeleteRelations\<close> runs one exact-match deletion per item,
  each a statement of its own on the handle; there is no transaction around them. With
  \<open>k\<close> the number of statements that run before the storage engine fails one, the
  rows deleted are exactly those that match one of the first \<open>k\<close> items on source,
  target and type, and an error is returned only when the engine failed: the deletions
  made before a failure stay. An item that names no stored relation deletes nothing and
  is no error; when no item names a stored relation the tables are unchanged.
\<close>

theorem DeleteRelations_each_statement:
  assumes "DeleteRelations d rels = (res, d')"
    and "k = survives (faults d) (length rels)"
  shows "res = (if k < length rels then Some StorageFailure else None) \<and>
         store d' = (store d)\<lparr>relations :=
            filter (\<lambda>r. relation_key r \<notin> set (take k rels)) (relations (store d))\<rparr> \<and>
         (\<forall>key \<in> set rels. key \<notin> set (map relation_key (relations (store d)))
            \<longrightarrow> delete_relation_exact (fst key) (fst (snd key)) (snd (snd key)) (store d)
                  = Inr ((), store d)) \<and>
         ((\<forall>key \<in> set rels. key \<notin> set (map relation_key (relations (store d))))
            \<longrightarrow> store d' = store d)"
proof -
  have noop: "delete_relation_exact f t ty (store d) = Inr ((), store d)"
    if "(f, t, ty) \<notin> set (map relation_key (relations (store d)))" for f t ty
  proof -
    from that have "filter (\<lambda>r. \<not> (From r = f \<and> To r = t \<and> RType r = ty)) (relations (store d))
        = relations (store d)"
      by (auto simp: relation_key_def filter_id_conv image_iff)
    then show ?thesis by (simp add: delete_relation_exact_def)
  qed
  have both: "res = (if k < length rels then Some StorageFailure else None) \<and>
      store d' = (store d)\<lparr>relations :=
            filter (\<lambda>r. relation_key r \<notin> set (take k rels)) (relations (store d))\<rparr>"
  proof (cases "rels = []")
    case True
    with assms show ?thesis by (simp add: DeleteRelations_def)
  next
    case False
    with assms DeleteRelations_loop_eq[of d rels] show ?thesis
      by (auto simp: DeleteRelations_def)
  qed
  then have res: "res = (if k < length rels then Some StorageFailure else None)"
    and st: "store d' = (store d)\<lparr>relations :=
            filter (\<lambda>r. relation_key r \<notin> set (take k rels)) (relations (store d))\<rparr>"
    by simp_all
  have same: "store d' = store d"
    if none: "\<forall>key \<in> set rels. key \<notin> set (map relation_key (relations (store d)))"
  proof -
    have "filter (\<lambda>r. relation_key r \<notin> set (take k rels)) (relations (store d))
        = relations (store d)"
      using none by (auto simp: filter_id_conv dest: in_set_takeD)
    with st show ?thesis by simp
  qed
  from res st noop same show ?thesis by auto
qed

theorem DeleteRelations_each_statement_witness:
  "fst (DeleteRelations (alice_db [])
          [(''Alice'', ''Company'', ''works_at''), (''Company'', ''Alice'', ''employs'')]) = None \<and>
   relations (store (snd (DeleteRelations (alice_db [])
          [(''Alice'', ''Company'', ''works_at''), (''Company'', ''Alice'', ''employs'')]))) = [] \<and>
   fst (DeleteRelations (alice_db []) [(''Company'', ''Alice'', ''employs'')]) = None \<and>
   store (snd (DeleteRelations (alice_db []) [(''Company'', ''Alice'', ''employs'')])) = alice_tables"
proof -
  have absent: "\<forall>key \<in> set [(''Company'', ''Alice'', ''employs'')].
      key \<notin> set (map relation_key (relations (store (alice_db []))))"
    by (simp add: alice_db_def alice_tables_def relation_key_def)
  note single = DeleteRelations_each_statement[OF surjective_pairing refl,
      of "alice_db []" "[(''Company'', ''Alice'', ''employs'')]"]
  have one: "fst (DeleteRelations (alice_db []) [(''Company'', ''Alice'', ''employs'')]) = None"
    using single[THEN conjunct1] by (simp add: alice_db_def)
  have unchanged: "store (snd (DeleteRelations (alice_db []) [(''Company'', ''Alice'', ''employs'')]))
      = alice_tables"
    using single[THEN conjunct2, THEN conjunct2, THEN conjunct2] absent
    by (simp add: alice_db_def)
  note pair = DeleteRelations_each_statement[OF surjective_pairing refl, of "alice_db []"
      "[(''Alice'', ''Company'', ''works_at''), (''Company'', ''Alice'', ''employs'')]"]
  have "fst (DeleteRelations (alice_db [])
          [(''Alice'', ''Company'', ''works_at''), (''Company'', ''Alice'', ''employs'')]) = None"
    using pair[THEN conjunct1] by (simp add: alice_db_def)
  moreover have "relations (store (snd (DeleteRelations (alice_db [])
          [(''Alice'', ''Company'', ''works_at''), (''Company'', ''Alice'', ''employs'')]))) = []"
    using pair[THEN conjunct2, THEN conjunct1]
    by (simp add: alice_db_def alice_tables_def relation_key_def)
  ultimately have "fst (DeleteRelations (alice_db [])
          [(''Alice'', ''Company'', ''works_at''), (''Company'', ''Alice'', ''employs'')]) = None"
    and "relations (store (snd (DeleteRelations (alice_db [])
          [(''Alice'', ''Company'', ''works_at''), (''Company'', ''Alice'', ''employs'')]))) = []"
    by simp_all
  with one unchanged show ?thesis by simp
qed

text \<open>C7 as it was stated, that the deletions share one transaction, does not hold:
  below the second statement fails, an error is returned, and the relation that the
  first statement deleted is gone.\<close>

theorem DeleteRelations_partial:
  "fst (DeleteRelations (alice_db [False, True])
          [(''Alice'', ''Company'', ''works_at''), (''Company'', ''Alice'', ''employs'')])
     = Some StorageFailure \<and>
   relations (store (snd (DeleteRelations (alice_db [False, True])
          [(''Alice'', ''Company'', ''works_at''), (''Company'', ''Alice'', ''employs'')]))) = [] \<and>
   relations (store (alice_db [False, True]))
     = [\<lparr>ID = 1, From = ''Alice'', To = ''Company'', RType = ''works_at''\<rparr>]"
  by code_simp

section \<open>The constraints of the schema\<close>

text \<open>The names of the entities stay unique whatever connections serve the calls: a
  primary key is enforced on every connection.\<close>

lemma names_distinct_perform:
  assumes "distinct (map Name (entities (store d)))"
  shows "distinct (map Name (entities (store (snd (perform ul d c)))))"
proof (cases c)
  case (CallCreateEntity n ty)
  with assms show ?thesis
    by (auto simp: CreateEntity_store entity_exists_def)
next
  case (CallCreateRelation f t ty)
  with assms show ?thesis
    by (simp add: CreateRelation_eq split: prod.splits sum.splits)
next
  case (CallCreateObservation n c)
  with assms show ?thesis by (simp add: CreateObservation_eq)
next
  case (CallAddObservations batch)
  with assms show ?thesis by (simp add: AddObservations_def AddObservations_loop_frame)
next
  case (CallDeleteEntities names)
  with assms show ?thesis
    using DeleteEntities_eq[of d names] by (simp add: cascade_def distinct_map_filter)
next
  case (CallDeleteObservations dels)
  with assms show ?thesis
    using DeleteObservations_loop_shrinks[of d dels]
    by (simp add: DeleteObservations_def shrinks_def)
next
  case (CallDeleteRelations rels)
  with assms show ?thesis
    using DeleteRelations_loop_shrinks[of d rels]
    by (simp add: DeleteRelations_def shrinks_def)
qed (use assms in simp_all)

lemma snd_perform_CreateRelation [simp]:
  "snd (perform ul d (CallCreateRelation f t ty)) = snd (CreateRelation d f t ty)"
  by (simp split: prod.splits sum.splits)

lemma snd_run_Cons: "snd (run ul d (c # cs)) = snd (run ul (snd (perform ul d c)) cs)"
  by (simp split: prod.splits)

lemma names_distinct_run:
  "distinct (map Name (entities (store d))) \<Longrightarrow>
     distinct (map Name (entities (store (snd (run ul d cs)))))"
proof (induction cs arbitrary: d)
  case Nil
  then show ?case by simp
next
  case (Cons c cs)
  from Cons.IH[OF names_distinct_perform[OF Cons.prems, of ul c]] show ?case
    by (simp only: snd_run_Cons)
qed

lemma names_distinct_reachable:
  "distinct (map Name (entities (store (snd (run ul ((Init fs)\<lparr>plan := p\<rparr>) cs)))))"
  by (rule names_distinct_run) (simp add: Init_def)

text \<open>The plan of a handle on which every call is served by a connection that
  enforces the foreign keys stays such a plan.\<close>

lemma all_enforced_store [simp]: "all_enforced (d\<lparr>store := t\<rparr>) = all_enforced d"
  by (simp add: all_enforced_def)

lemma all_enforced_call:
  "all_enforced d \<Longrightarrow> enforces d \<and> all_enforced (snd (engine_call d))"
  by (cases "plan d") (simp_all add: all_enforced_def enforces_def engine_call_def configured_def)

lemma all_enforced_Init [simp]: "all_enforced (Init fs)"
  by (simp add: all_enforced_def Init_def list_all_iff configured_def)

lemma all_enforced_AddObservations_loop:
  "all_enforced d \<Longrightarrow> all_enforced (snd (AddObservations_loop d items acc))"
proof (induction items arbitrary: d acc)
  case Nil
  then show ?case by simp
next
  case (Cons item items)
  obtain n c where item: "item = (n, c)" by (cases item)
  from Cons.prems have one: "all_enforced (snd (engine_call d))"
    by (simp add: all_enforced_call)
  then have two: "all_enforced (snd (engine_call (snd (engine_call d))))"
    by (simp add: all_enforced_call)
  show ?case
    unfolding item AddObservations_loop_Cons using one two by (auto intro!: Cons.IH)
qed

lemma all_enforced_DeleteRelations_loop:
  "all_enforced d \<Longrightarrow> all_enforced (snd (DeleteRelations_loop d rels))"
proof (induction rels arbitrary: d)
  case Nil
  then show ?case by simp
next
  case (Cons k rels)
  obtain f t ty where k: "k = (f, t, ty)" by (cases k)
  from Cons.prems have one: "all_enforced (snd (engine_call d))"
    by (simp add: all_enforced_call)
  show ?case
    unfolding k DeleteRelations_loop_Cons using one by (auto intro!: Cons.IH)
qed

lemma all_enforced_DeleteObservations_loop:
  "all_enforced d \<Longrightarrow> all_enforced (snd (DeleteObservations_loop d dels))"
proof (induction dels arbitrary: d)
  case Nil
  then show ?case by simp
next
  case (Cons k dels)
  obtain n obs where k: "k = (n, obs)" by (cases k)
  from Cons.prems have one: "all_enforced (snd (engine_call d))"
    by (simp add: all_enforced_call)
  show ?case
    unfolding k DeleteObservations_loop_Cons using one Cons.prems by (auto intro!: Cons.IH)
qed

lemma all_enforced_DeleteEntities:
  assumes "all_enforced d"
  shows "all_enforced (snd (DeleteEntities d names))"
proof -
  let ?d1 = "snd (engine_call d)"
  let ?d2 = "snd (engine_call ?d1)"
  let ?d3 = "snd (engine_call ?d2)"
  let ?d4 = "snd (engine_call ?d3)"
  let ?d5 = "snd (engine_call ?d4)"
  from assms have "all_enforced ?d1" by (simp add: all_enforced_call)
  moreover from this have "all_enforced ?d2" by (simp add: all_enforced_call)
  moreover from this have "all_enforced ?d3" by (simp add: all_enforced_call)
  moreover from this have "all_enforced ?d4" by (simp add: all_enforced_call)
  moreover from this have "all_enforced ?d5" by (simp add: all_enforced_call)
  ultimately show ?thesis
    using assms
    by (auto simp: DeleteEntities_def Begin_eq TxExec_eq Commit_eq delete_relations_touching_def
        delete_observations_of_def delete_entities_named_after)
qed

lemma all_enforced_reads:
  assumes "all_enforced d"
  shows "all_enforced (snd (ReadGraph d))"
    and "all_enforced (snd (SearchNodes ul d q))"
    and "all_enforced (snd (OpenNodes d names))"
proof -
  let ?d1 = "snd (engine_call d)"
  let ?d2 = "snd (engine_call ?d1)"
  let ?d3 = "snd (engine_call ?d2)"
  from assms have 1: "all_enforced ?d1" by (simp add: all_enforced_call)
  then have 2: "all_enforced ?d2" by (simp add: all_enforced_call)
  then have 3: "all_enforced ?d3" by (simp add: all_enforced_call)
  from 1 2 3 show "all_enforced (snd (ReadGraph d))"
    by (simp add: ReadGraph_def QueryRows_eq)
  from 1 2 show "all_enforced (snd (SearchNodes ul d q))"
    by (simp add: SearchNodes_def QueryRows_eq Let_def)
  from assms 1 2 show "all_enforced (snd (OpenNodes d names))"
    by (simp add: OpenNodes_def QueryRows_eq)
qed

lemma all_enforced_perform: "all_enforced d \<Longrightarrow> all_enforced (snd (perform ul d c))"
proof (cases c)
  case (CallAddObservations batch)
  then show "all_enforced d \<Longrightarrow> ?thesis"
    by (simp add: AddObservations_def all_enforced_AddObservations_loop)
next
  case (CallDeleteObservations dels)
  then show "all_enforced d \<Longrightarrow> ?thesis"
    by (simp add: DeleteObservations_def all_enforced_DeleteObservations_loop)
next
  case (CallDeleteRelations rels)
  then show "all_enforced d \<Longrightarrow> ?thesis"
    by (simp add: DeleteRelations_def all_enforced_DeleteRelations_loop)
qed (simp_all add: CreateEntity_eq CreateRelation_eq CreateObservation_eq all_enforced_call
    all_enforced_DeleteEntities all_enforced_reads del: perform.simps(2))

text \<open>What the schema of \<open>Init\<close> keeps true of the tables on such a handle.\<close>

lemma wf_tables_Init: "wf_tables (store (Init fs))"
  by (simp add: Init_def wf_tables_def)

lemma wf_insert_entity:
  assumes "wf_tables t" and "\<not> entity_exists t n"
  shows "wf_tables (t\<lparr>entities := entities t @ [\<lparr>Name = n, Type = ty\<rparr>]\<rparr>)"
  using assms by (auto simp: wf_tables_def entity_exists_def list_all_iff)

lemma wf_CreateEntity: "wf_tables (store d) \<Longrightarrow> wf_tables (store (snd (CreateEntity d n ty)))"
  by (simp add: CreateEntity_store wf_insert_entity)

lemma wf_insert_relation:
  assumes "wf_tables t" and "entity_exists t f" and "entity_exists t g"
  shows "wf_tables (t\<lparr>relations := relations t @
            [\<lparr>ID = next_id (relations_seq t) (map ID (relations t)), From = f, To = g, RType = ty\<rparr>],
          relations_seq := next_id (relations_seq t) (map ID (relations t))\<rparr>)"
proof -
  let ?i = "next_id (relations_seq t) (map ID (relations t))"
  have new: "?i \<notin> ID ` set (relations t)"
    using next_id_gt_mem[of ?i "map ID (relations t)" "relations_seq t"] by auto
  have le: "ID r \<le> ?i" if "r \<in> set (relations t)" for r
    using next_id_gt_mem[of "ID r" "map ID (relations t)" "relations_seq t"] that by force
  from assms new le show ?thesis
    by (auto simp: wf_tables_def entity_exists_def list_all_iff)
qed

lemma wf_CreateRelation:
  "enforces d \<Longrightarrow> wf_tables (store d) \<Longrightarrow> wf_tables (store (snd (CreateRelation d f g ty)))"
  by (simp add: CreateRelation_eq wf_insert_relation)

lemma wf_with_observation:
  assumes "wf_tables t" and "entity_exists t (fst item)"
  shows "wf_tables (with_observation t item)"
proof -
  let ?i = "next_id (observations_seq t) (map OID (observations t))"
  have new: "?i \<notin> OID ` set (observations t)"
    using next_id_gt_mem[of ?i "map OID (observations t)" "observations_seq t"] by auto
  have le: "OID ob \<le> ?i" if "ob \<in> set (observations t)" for ob
    using next_id_gt_mem[of "OID ob" "map OID (observations t)" "observations_seq t"] that by force
  from assms new le show ?thesis
    by (auto simp: wf_tables_def entity_exists_def list_all_iff with_observation_def Let_def)
qed

lemma wf_CreateObservation:
  "enforces d \<Longrightarrow> wf_tables (store d) \<Longrightarrow> wf_tables (store (snd (CreateObservation d n c)))"
  by (simp add: CreateObservation_eq wf_with_observation)

lemma wf_AddObservations_loop:
  "wf_tables (store d) \<Longrightarrow> wf_tables (store (snd (AddObservations_loop d items acc)))"
proof (induction items arbitrary: d acc)
  case Nil
  then show ?case by simp
next
  case (Cons item items)
  obtain n c where item: "item = (n, c)" by (cases item)
  show ?case
    unfolding item AddObservations_loop_Cons
    using Cons.prems by (auto intro!: Cons.IH wf_with_observation)
qed

lemma wf_cascade: "wf_tables t \<Longrightarrow> wf_tables (cascade names t)"
  by (auto simp: wf_tables_def cascade_def entity_exists_def list_all_iff distinct_map_filter)

lemma wf_DeleteEntities:
  "wf_tables (store d) \<Longrightarrow> wf_tables (store (snd (DeleteEntities d names)))"
  using DeleteEntities_eq[of d names] by (auto simp: wf_cascade)

lemma wf_shrinks: "wf_tables t \<Longrightarrow> shrinks t t' \<Longrightarrow> wf_tables t'"
  by (auto simp: wf_tables_def shrinks_def entity_exists_def list_all_iff distinct_map_filter)

lemma wf_perform:
  "all_enforced d \<Longrightarrow> wf_tables (store d) \<Longrightarrow> wf_tables (store (snd (perform ul d c)))"
proof (cases c)
  case (CallAddObservations batch)
  then show "wf_tables (store d) \<Longrightarrow> ?thesis"
    by (simp add: AddObservations_def wf_AddObservations_loop)
next
  case (CallDeleteObservations dels)
  then show "wf_tables (store d) \<Longrightarrow> ?thesis"
    using DeleteObservations_loop_shrinks[of d dels]
    by (auto simp: DeleteObservations_def intro: wf_shrinks)
next
  case (CallDeleteRelations rels)
  then show "wf_tables (store d) \<Longrightarrow> ?thesis"
    using DeleteRelations_loop_shrinks[of d rels]
    by (auto simp: DeleteRelations_def intro: wf_shrinks)
qed (simp_all add: wf_CreateEntity wf_CreateRelation wf_CreateObservation wf_DeleteEntities
    all_enforced_call del: perform.simps(2))

lemma wf_run:
  "all_enforced d \<Longrightarrow> wf_tables (store d) \<Longrightarrow> wf_tables (store (snd (run ul d cs)))"
proof (induction cs arbitrary: d)
  case Nil
  then show ?case by simp
next
  case (Cons c cs)
  from Cons.IH[OF all_enforced_perform[OF Cons.prems(1), of ul c]
      wf_perform[OF Cons.prems, of ul c]]
  show ?case
    by (simp only: snd_run_Cons)
qed

lemma wf_reachable: "wf_tables (store (snd (run ul (Init fs) cs)))"
  by (rule wf_run[OF all_enforced_Init wf_tables_Init])

section \<open>Opening nodes\<close>

lemma OpenNodes_eq:
  "OpenNodes d names =
     (let ents = fetch (fetched d) (select_entities_named names (store d));
          d1 = snd (engine_call d) in
      if names = [] then (Inr ([], []), d)
      else if engine_fails d then (Inl StorageFailure, d1)
      else if ents = [] then (Inr ([], []), d1)
      else if engine_fails d1 then (Inl StorageFailure, snd (engine_call d1))
      else (Inr (ents, fetch (fetched d1) (select_relations_touching names (store d))),
            snd (engine_call d1)))"
  by (simp add: OpenNodes_def QueryRows_eq Let_def)

lemma touching_found_names:
  assumes "list_all (\<lambda>r. entity_exists t (From r) \<and> entity_exists t (To r) \<and> ID r \<le> relations_seq t)
       (relations t)"
  shows "select_relations_touching names t
       = select_relations_touching (map Name (select_entities_named names t)) t"
  unfolding select_relations_touching_def
proof (rule filter_cong[OF refl])
  fix r assume "r \<in> set (relations t)"
  with assms have ex: "entity_exists t (From r)" "entity_exists t (To r)"
    by (auto simp: list_all_iff)
  have "n \<in> set names \<longleftrightarrow> n \<in> set (map Name (select_entities_named names t))"
    if "entity_exists t n" for n
    using that by (auto simp: entity_exists_def select_entities_named_def)
  with ex show "(From r \<in> set names \<or> To r \<in> set names) \<longleftrightarrow>
      (From r \<in> set (map Name (select_entities_named names t)) \<or>
       To r \<in> set (map Name (select_entities_named names t)))"
    by blast
qed

lemma OpenNodes_found:
  assumes "wf_tables t"
  shows "set (select_entities_named names t) = {e \<in> set (entities t). Name e \<in> set names} \<and>
     distinct (select_entities_named names t) \<and>
     set (select_relations_touching names t) =
       {r \<in> set (relations t). From r \<in> Name ` set (select_entities_named names t) \<or>
                               To r \<in> Name ` set (select_entities_named names t)} \<and>
     distinct (select_relations_touching names t)"
proof -
  from assms have fk: "list_all (\<lambda>r. entity_exists t (From r) \<and> entity_exists t (To r) \<and>
      ID r \<le> relations_seq t) (relations t)"
    and de: "distinct (entities t)" and dr: "distinct (relations t)"
    by (auto simp: wf_tables_def dest: distinct_map[THEN iffD1])
  show ?thesis
    unfolding touching_found_names[OF fk, of names]
    using de dr by (auto simp: select_entities_named_def select_relations_touching_def)
qed

lemma select_relations_touching_none:
  assumes "wf_tables t" and "select_entities_named names t = []"
  shows "select_relations_touching names t = []"
proof -
  from assms(1) have fk: "list_all (\<lambda>r. entity_exists t (From r) \<and> entity_exists t (To r) \<and>
      ID r \<le> relations_seq t) (relations t)"
    by (simp add: wf_tables_def)
  show ?thesis
    unfolding touching_found_names[OF fk, of names] assms(2)
    by (simp add: select_relations_touching_def)
qed

text \<open>
  \<open>OpenNodes\<close> on tables that satisfy the constraints of the schema, the fetching of
  the rows not failing. It returns an error only when a call into the storage engine
  fails, and never for the empty list. What it returns otherwise is exactly the stored
  entities whose name is among the given names, each once, and exactly the stored
  relations whose source or target is one of the returned entities; names of no entity
  contribute nothing. For the empty list, and for names none of which is stored (the
  engine not failing), both lists are empty. The tables are not changed.
\<close>

theorem OpenNodes_enforced:
  assumes "wf_tables (store d)"
    and "\<not> fetch_fails_within 2 d"
    and "OpenNodes d names = (res, d')"
  shows "(case res of
            Inl e \<Rightarrow> e = StorageFailure \<and> names \<noteq> [] \<and> fails_within 2 d
          | Inr (ents, rels) \<Rightarrow>
              set ents = {e \<in> set (entities (store d)). Name e \<in> set names} \<and>
              distinct ents \<and>
              set rels = {r \<in> set (relations (store d)).
                            From r \<in> Name ` set ents \<or> To r \<in> Name ` set ents} \<and>
              distinct rels) \<and>
         (\<not> fails_within 2 d \<longrightarrow> (\<exists>ents rels. res = Inr (ents, rels))) \<and>
         (names = [] \<or> (\<not> engine_fails d \<and> (\<forall>n \<in> set names. \<not> entity_exists (store d) n))
            \<longrightarrow> res = Inr ([], [])) \<and>
         store d' = store d"
proof -
  let ?t = "store d"
  let ?ents = "select_entities_named names ?t"
  let ?rels = "select_relations_touching names ?t"
  note found = OpenNodes_found[OF assms(1), of names]
  have two: "fails_within 2 d \<longleftrightarrow> engine_fails d \<or> engine_fails (snd (engine_call d))"
    by (simp add: eval_nat_numeral fails_within_Suc)
  from assms(2) have all: "fetched d = None" "fetched (snd (engine_call d)) = None"
    by (simp_all add: eval_nat_numeral fetch_fails_within_Suc)
  have st: "store d' = store d"
    using assms(3) OpenNodes_store[of d names] by simp
  have none: "?ents = []" if "names = [] \<or> (\<forall>n \<in> set names. \<not> entity_exists ?t n)"
    using that by (auto simp: select_entities_named_def entity_exists_def filter_empty_conv)
  have res: "res =
     (if names = [] then Inr ([], [])
      else if engine_fails d then Inl StorageFailure
      else if ?ents = [] then Inr ([], [])
      else if engine_fails (snd (engine_call d)) then Inl StorageFailure
      else Inr (?ents, ?rels))"
    using assms(3) by (simp add: OpenNodes_eq all Let_def split: if_splits)
  consider (silent) "names = [] \<or> (\<not> engine_fails d \<and> ?ents = [])"
    | (failed) "names \<noteq> []" "engine_fails d \<or> (?ents \<noteq> [] \<and> engine_fails (snd (engine_call d)))"
    | (found) "names \<noteq> []" "?ents \<noteq> []" "\<not> engine_fails d" "\<not> engine_fails (snd (engine_call d))"
    by blast
  then show ?thesis
  proof cases
    case silent
    then have e: "?ents = []" using none by blast
    then have r: "?rels = []" by (rule select_relations_touching_none[OF assms(1)])
    from silent res have "res = Inr ([], [])" by auto
    with found e r st show ?thesis by simp
  next
    case failed
    with res have "res = Inl StorageFailure" by auto
    with failed st none two show ?thesis by auto
  next
    case found
    with res have "res = Inr (?ents, ?rels)" by simp
    with found OpenNodes_found[OF assms(1), of names] st none two show ?thesis by auto
  qed
qed

lemma wf_alice_tables: "wf_tables alice_tables"
  by code_simp

lemma wf_language_tables: "wf_tables language_tables"
  by code_simp

theorem OpenNodes_enforced_witness:
  "fst (OpenNodes (alice_db []) [''Alice'', ''Nobody''])
     = Inr ([\<lparr>Name = ''Alice'', Type = ''person''\<rparr>],
            [\<lparr>ID = 1, From = ''Alice'', To = ''Company'', RType = ''works_at''\<rparr>]) \<and>
   fst (OpenNodes (alice_db []) []) = Inr ([], []) \<and>
   fst (OpenNodes (alice_db []) [''Nobody'', ''Bob'']) = Inr ([], [])"
proof -
  have wf: "wf_tables (store (alice_db []))"
    by (simp add: alice_db_def wf_alice_tables)
  have all: "\<not> fetch_fails_within 2 (alice_db [])"
    by (simp add: alice_db_def)
  have ok: "\<not> engine_fails (alice_db [])"
    by (simp add: alice_db_def)
  have absent: "\<forall>n \<in> set [''Nobody'', ''Bob'']. \<not> entity_exists (store (alice_db [])) n"
    by (simp add: alice_db_def alice_tables_def entity_exists_def)
  have found: "fst (OpenNodes (alice_db []) [''Alice'', ''Nobody''])
     = Inr ([\<lparr>Name = ''Alice'', Type = ''person''\<rparr>],
            [\<lparr>ID = 1, From = ''Alice'', To = ''Company'', RType = ''works_at''\<rparr>])"
    by code_simp
  from OpenNodes_enforced[OF wf all surjective_pairing, of "[]"]
  have empty: "fst (OpenNodes (alice_db []) []) = Inr ([], [])"
    by simp
  from OpenNodes_enforced[OF wf all surjective_pairing, of "[''Nobody'', ''Bob'']"] ok absent
  have none: "fst (OpenNodes (alice_db []) [''Nobody'', ''Bob'']) = Inr ([], [])"
    by blast
  from found empty none show ?thesis by simp
qed

text \<open>
  C6. Two slips of the source make \<open>OpenNodes\<close> return otherwise. It asks for the
  relations by the names it was given, not by the entities it found, though its comment
  says \<open>Get all relations involving these entities\<close> and \<open>SearchNodes\<close> does ask by
  the names it found. On the tables that \<open>dangling_history\<close> leaves, with the relation
  from \<open>Bob\<close> that a connection without foreign keys accepted, \<open>OpenNodes\<close> for \<open>Bob\<close>
  and \<open>Alice\<close> returns the entity \<open>Alice\<close> and, with the relation of \<open>Alice\<close>, the relation from
  \<open>Bob\<close> to \<open>Company\<close>, neither of which is a returned entity. And it never asks
  \<open>rows.Err()\<close>: when the fetching of the entities fails before the first row,
  \<open>OpenNodes\<close> for \<open>Alice\<close>, who is stored, returns no entity and no error.
\<close>

theorem OpenNodes_dangling:
  "fst (OpenNodes (snd (run (\<lambda>s. s) pooled_db dangling_history)) [''Bob'', ''Alice''])
     = Inr ([\<lparr>Name = ''Alice'', Type = ''person''\<rparr>],
            [\<lparr>ID = 1, From = ''Alice'', To = ''Company'', RType = ''works_at''\<rparr>,
             \<lparr>ID = 2, From = ''Bob'', To = ''Company'', RType = ''works_at''\<rparr>]) \<and>
   map Name (entities (store (snd (run (\<lambda>s. s) pooled_db dangling_history))))
     = [''Alice'', ''Company''] \<and>
   fst (OpenNodes ((alice_db [])\<lparr>plan := [interrupted 0]\<rparr>) [''Alice'']) = Inr ([], []) \<and>
   entity_exists (store (alice_db [])) ''Alice''"
  by code_simp

section \<open>Searching\<close>

lemma of_char_ascii_lower:
  "(of_char (ascii_lower c) :: nat) =
     (if 65 \<le> (of_char c :: nat) \<and> (of_char c :: nat) \<le> 90 then of_char c + 32 else of_char c)"
  by (simp add: ascii_lower_def Let_def of_char_of)

lemma ascii_lower_idem [simp]: "ascii_lower (ascii_lower c) = ascii_lower c"
  by (rule of_char_eqI[where ?'a = nat]) (simp add: of_char_ascii_lower)

lemma ascii_lower_wildcard [simp]: "is_wildcard (ascii_lower c) = is_wildcard c"
proof -
  have "c = CHR ''%'' \<longleftrightarrow> (of_char c :: nat) = 37" "c = CHR ''_'' \<longleftrightarrow> (of_char c :: nat) = 95"
    "ascii_lower c = CHR ''%'' \<longleftrightarrow> (of_char (ascii_lower c) :: nat) = 37"
    "ascii_lower c = CHR ''_'' \<longleftrightarrow> (of_char (ascii_lower c) :: nat) = 95"
    by (simp_all flip: of_char_eq_iff[where ?'a = nat])
  then show ?thesis
    by (auto simp: is_wildcard_def of_char_ascii_lower)
qed

lemma like_match_percent_all [simp]: "like_match ''%'' s"
  by (induction s) simp_all

lemma like_match_percent:
  "like_match (CHR ''%'' # ps) s \<longleftrightarrow> (\<exists>a b. s = a @ b \<and> like_match ps b)"
proof (induction s)
  case Nil
  then show ?case by (cases ps) auto
next
  case (Cons c s)
  show ?case
  proof
    assume "like_match (CHR ''%'' # ps) (c # s)"
    then consider "like_match ps (c # s)" | "like_match (CHR ''%'' # ps) s" by auto
    then show "\<exists>a b. c # s = a @ b \<and> like_match ps b"
    proof cases
      case 1
      then show ?thesis by (intro exI[of _ "[]"] exI[of _ "c # s"]) simp
    next
      case 2
      with Cons.IH obtain a b where "s = a @ b" "like_match ps b" by blast
      then show ?thesis by (intro exI[of _ "c # a"] exI[of _ b]) simp
    qed
  next
    assume "\<exists>a b. c # s = a @ b \<and> like_match ps b"
    then obtain a b where ab: "c # s = a @ b" "like_match ps b" by blast
    show "like_match (CHR ''%'' # ps) (c # s)"
    proof (cases a)
      case Nil
      with ab have "like_match ps (c # s)" by simp
      then show ?thesis by simp
    next
      case (Cons x a')
      with ab have "s = a' @ b" by simp
      with ab(2) Cons.IH show ?thesis by auto
    qed
  qed
qed

lemma like_match_literal:
  assumes "\<not> list_ex is_wildcard p"
  shows "like_match (p @ r) s \<longleftrightarrow>
           (\<exists>a b. s = a @ b \<and> map ascii_lower a = map ascii_lower p \<and> like_match r b)"
  using assms
proof (induction p arbitrary: s)
  case Nil
  then show ?case by simp
next
  case (Cons x p)
  then have x: "x \<noteq> CHR ''%''" "x \<noteq> CHR ''_''"
    by (auto simp: is_wildcard_def)
  from Cons.prems have p: "\<not> list_ex is_wildcard p"
    by simp
  show ?case
  proof (cases s)
    case Nil
    with x show ?thesis by simp
  next
    case (Cons c s')
    have "like_match ((x # p) @ r) (c # s') \<longleftrightarrow> ascii_lower x = ascii_lower c \<and> like_match (p @ r) s'"
      using x by simp
    also have "\<dots> \<longleftrightarrow> ascii_lower x = ascii_lower c \<and>
        (\<exists>a b. s' = a @ b \<and> map ascii_lower a = map ascii_lower p \<and> like_match r b)"
      using Cons.IH[OF p] by simp
    also have "\<dots> \<longleftrightarrow> (\<exists>a b. c # s' = a @ b \<and> map ascii_lower a = map ascii_lower (x # p) \<and> like_match r b)"
    proof
      assume "ascii_lower x = ascii_lower c \<and>
        (\<exists>a b. s' = a @ b \<and> map ascii_lower a = map ascii_lower p \<and> like_match r b)"
      then obtain a b where "ascii_lower x = ascii_lower c" "s' = a @ b"
        "map ascii_lower a = map ascii_lower p" "like_match r b" by blast
      then show "\<exists>a b. c # s' = a @ b \<and> map ascii_lower a = map ascii_lower (x # p) \<and> like_match r b"
        by (intro exI[of _ "c # a"] exI[of _ b]) simp
    next
      assume "\<exists>a b. c # s' = a @ b \<and> map ascii_lower a = map ascii_lower (x # p) \<and> like_match r b"
      then obtain a b where ab: "c # s' = a @ b" "map ascii_lower a = map ascii_lower (x # p)"
        "like_match r b" by blast
      from ab(2) obtain a0 a' where a: "a = a0 # a'" by (cases a) auto
      with ab show "ascii_lower x = ascii_lower c \<and>
        (\<exists>a b. s' = a @ b \<and> map ascii_lower a = map ascii_lower p \<and> like_match r b)"
        by auto
    qed
    finally show ?thesis using Cons by simp
  qed
qed

lemma like_match_contains:
  assumes "\<not> list_ex is_wildcard q"
  shows "like_match (''%'' @ q @ ''%'') s \<longleftrightarrow> contains_ignoring_case q s"
proof -
  have tail: "like_match (q @ ''%'') b \<longleftrightarrow>
      (\<exists>m e. b = m @ e \<and> map ascii_lower m = map ascii_lower q)" for b
    using like_match_literal[OF assms, of "''%''" b] by simp
  have "like_match (''%'' @ q @ ''%'') s \<longleftrightarrow>
      (\<exists>a b. s = a @ b \<and> (\<exists>m e. b = m @ e \<and> map ascii_lower m = map ascii_lower q))"
    using like_match_percent[of "q @ ''%''" s] by (simp add: tail)
  also have "\<dots> \<longleftrightarrow> (\<exists>a m e. s = a @ m @ e \<and> map ascii_lower m = map ascii_lower q)"
    by blast
  also have "\<dots> \<longleftrightarrow> contains_ignoring_case q s"
    unfolding contains_ignoring_case_def sublist_def
  proof
    assume "\<exists>a m e. s = a @ m @ e \<and> map ascii_lower m = map ascii_lower q"
    then obtain a m e where "s = a @ m @ e" "map ascii_lower m = map ascii_lower q" by blast
    then have "map ascii_lower s = map ascii_lower a @ map ascii_lower q @ map ascii_lower e"
      by simp
    then show "\<exists>ps ss. map ascii_lower s = ps @ map ascii_lower q @ ss" by blast
  next
    assume "\<exists>ps ss. map ascii_lower s = ps @ map ascii_lower q @ ss"
    then obtain ps ss where "map ascii_lower s = ps @ map ascii_lower q @ ss" by blast
    then obtain a r where ar: "s = a @ r" "map ascii_lower q @ ss = map ascii_lower r"
      unfolding map_eq_append_conv by blast
    from ar(2)[symmetric] obtain m e where "r = m @ e" "map ascii_lower q = map ascii_lower m"
      unfolding map_eq_append_conv by blast
    with ar have "s = a @ m @ e" "map ascii_lower m = map ascii_lower q" by simp_all
    then show "\<exists>a m e. s = a @ m @ e \<and> map ascii_lower m = map ascii_lower q" by blast
  qed
  finally show ?thesis .
qed

lemma contains_ignoring_case_lower [simp]:
  "contains_ignoring_case (map ascii_lower q) s = contains_ignoring_case q s"
  "contains_ignoring_case q (map ascii_lower s) = contains_ignoring_case q s"
  by (simp_all add: contains_ignoring_case_def comp_def)

lemma joined_rows:
  "(e, j) \<in> set (case filter P obs of [] \<Rightarrow> [(e', None)] | os \<Rightarrow> map (\<lambda>ob. (e', Some ob)) os) \<longleftrightarrow>
     e = e' \<and> (case j of None \<Rightarrow> filter P obs = [] | Some ob \<Rightarrow> ob \<in> set (filter P obs))"
proof (cases "filter P obs")
  case Nil
  then show ?thesis by (auto split: option.splits)
next
  case (Cons a list)
  then show ?thesis by (cases j) auto
qed

lemma in_left_join_observations:
  "(e, j) \<in> set (left_join_observations t) \<longleftrightarrow>
     e \<in> set (entities t) \<and>
     (case j of
        None \<Rightarrow> \<forall>ob \<in> set (observations t). EntityName ob \<noteq> Name e
      | Some ob \<Rightarrow> ob \<in> set (observations t) \<and> EntityName ob = Name e)"
  unfolding left_join_observations_def set_concat set_map
  by (cases j) (auto simp: joined_rows filter_empty_conv)

lemma in_select_matching_entities:
  assumes short: "length pat \<le> SQLITE_MAX_LIKE_PATTERN_LENGTH"
  shows "e \<in> set (select_matching_entities pat t) \<longleftrightarrow>
     e \<in> set (entities t) \<and>
     (LIKE (LOWER (Name e)) pat \<or> LIKE (LOWER (Type e)) pat \<or>
      (\<exists>ob \<in> set (observations t). EntityName ob = Name e \<and> LIKE (LOWER (Content ob)) pat))"
  (is "?L \<longleftrightarrow> ?E \<and> (?A \<or> ?B \<or> ?C)")
proof
  assume ?L
  then obtain j where j: "(e, j) \<in> set (left_join_observations t)"
    and m: "?A \<or> ?B \<or> (case j of None \<Rightarrow> False | Some ob \<Rightarrow> LIKE (LOWER (Content ob)) pat)"
    using short by (auto simp: select_matching_entities_def)
  from j have ?E by (simp add: in_left_join_observations)
  moreover from j m have "?A \<or> ?B \<or> ?C"
    by (cases j) (auto simp: in_left_join_observations)
  ultimately show "?E \<and> (?A \<or> ?B \<or> ?C)" ..
next
  assume r: "?E \<and> (?A \<or> ?B \<or> ?C)"
  show ?L
  proof (cases ?C)
    case True
    then obtain ob where "ob \<in> set (observations t)" "EntityName ob = Name e"
      "LIKE (LOWER (Content ob)) pat" by blast
    with r have "(e, Some ob) \<in> set (left_join_observations t)"
      by (simp add: in_left_join_observations)
    with \<open>LIKE (LOWER (Content ob)) pat\<close> short show ?thesis
      by (force simp: select_matching_entities_def)
  next
    case False
    with r have ab: "?A \<or> ?B" by blast
    obtain j where "(e, j) \<in> set (left_join_observations t)"
    proof (cases "\<forall>ob \<in> set (observations t). EntityName ob \<noteq> Name e")
      case True
      with r have "(e, None) \<in> set (left_join_observations t)"
        by (simp add: in_left_join_observations)
      then show ?thesis ..
    next
      case False
      then obtain ob where "ob \<in> set (observations t)" "EntityName ob = Name e" by blast
      with r have "(e, Some ob) \<in> set (left_join_observations t)"
        by (simp add: in_left_join_observations)
      then show ?thesis ..
    qed
    with ab short show ?thesis
      by (force simp: select_matching_entities_def)
  qed
qed

lemma ToLower_ascii: "list_all is_ascii q \<Longrightarrow> ToLower ul q = map ascii_lower q"
  by (simp add: ToLower_def)

lemma SearchNodes_eq:
  "SearchNodes ul d q =
     (let found = fetch (fetched d)
            (select_matching_entities (CHR ''%'' # ToLower ul q @ ''%'') (store d));
          d1 = snd (engine_call d) in
      if engine_fails d then (Inl StorageFailure, d1)
      else if found = [] then (Inr ([], []), d1)
      else if engine_fails d1 then (Inl StorageFailure, snd (engine_call d1))
      else (Inr (found, fetch (fetched d1) (select_relations_touching (map Name found) (store d))),
            snd (engine_call d1)))"
  by (simp add: SearchNodes_def QueryRows_eq Let_def)

lemma ascii_lower_nul [simp]: "ascii_lower c = CHR 0x00 \<longleftrightarrow> c = CHR 0x00"
proof -
  have "c = CHR 0x00 \<longleftrightarrow> (of_char c :: nat) = 0"
    "ascii_lower c = CHR 0x00 \<longleftrightarrow> (of_char (ascii_lower c) :: nat) = 0"
    by (simp_all flip: of_char_eq_iff[where ?'a = nat])
  then show ?thesis
    by (auto simp: of_char_ascii_lower)
qed

lemma c_string_plain: "plain_text s \<Longrightarrow> c_string s = s"
  by (auto simp: plain_text_def c_string_def takeWhile_eq_all_conv)

lemma plain_text_lower [simp]: "plain_text (map ascii_lower s) = plain_text s"
proof -
  have "CHR 0x00 \<in> ascii_lower ` set s \<longleftrightarrow> CHR 0x00 \<in> set s"
    using ascii_lower_nul by (metis (no_types, lifting) image_iff)
  then show ?thesis
    by (simp add: plain_text_def)
qed

lemma search_pattern_match:
  assumes "list_all is_ascii q" and "\<not> list_ex is_wildcard q"
    and "plain_text q" and "plain_text s"
  shows "LIKE (LOWER s) (CHR ''%'' # ToLower ul q @ ''%'') \<longleftrightarrow> contains_ignoring_case q s"
proof -
  from assms(2) have "\<not> list_ex is_wildcard (map ascii_lower q)"
    by (simp add: list_ex_iff)
  from like_match_contains[OF this, of "LOWER s"]
  have "like_match (CHR ''%'' # map ascii_lower q @ ''%'') (LOWER s)
      \<longleftrightarrow> contains_ignoring_case q s"
    by (simp add: LOWER_def)
  moreover have "plain_text (CHR ''%'' # map ascii_lower q @ ''%'')"
    using assms(3) plain_text_lower[of q] by (simp add: plain_text_def)
  moreover have "plain_text (LOWER s)"
    using assms(4) by (simp add: LOWER_def)
  ultimately show ?thesis
    by (simp add: LIKE_def c_string_plain ToLower_ascii[OF assms(1)])
qed

lemma select_relations_touching_names [simp]:
  "select_relations_touching (map Name ents) t = relations_touching ents t"
  by (simp add: select_relations_touching_def relations_touching_def)

lemma relations_touching_Nil [simp]: "relations_touching [] t = []"
  by (simp add: relations_touching_def)

text \<open>
  C5, as the source has it. The query is put between two \<open>%\<close> and used as a \<open>LIKE\<close>
  pattern, so \<open>%\<close> and \<open>_\<close> in it are wildcards. For a query of ASCII characters
  without \<open>%\<close> and \<open>_\<close>, short enough for the pattern to be within the limit of
  SQLite, on text without NUL characters, \<open>SearchNodes\<close> returns an error only when a
  call into the storage engine fails, and otherwise, when the fetching of the rows is
  not interrupted, exactly the stored entities whose name, type or some observation
  contains the query as a substring, the case of the letters \<open>A\<close> to \<open>Z\<close> ignored, each
  once, and exactly the stored relations whose source or target is one of the returned
  entities. When the fetching is interrupted, what is returned is some of these
  entities and some of the relations that touch the returned ones. The tables are not
  changed.
\<close>

theorem SearchNodes_substring:
  assumes "list_all is_ascii query"
    and "\<not> list_ex is_wildcard query"
    and "plain_text query"
    and "length query + 2 \<le> SQLITE_MAX_LIKE_PATTERN_LENGTH"
    and "plain_tables (store d)"
    and "SearchNodes ul d query = (res, d')"
  shows "(case res of
            Inl e \<Rightarrow> e = StorageFailure \<and> fails_within 2 d
          | Inr (ents, rels) \<Rightarrow>
              distinct ents \<and>
              set ents \<subseteq> set (entities_containing query (store d)) \<and>
              set rels \<subseteq> set (relations_touching ents (store d)) \<and>
              (\<not> fetch_fails_within 2 d \<longrightarrow>
                 set ents = set (entities_containing query (store d)) \<and>
                 set rels = set (relations_touching ents (store d)))) \<and>
         (\<not> fails_within 2 d \<longrightarrow> (\<exists>ents rels. res = Inr (ents, rels))) \<and>
         store d' = store d"
proof -
  let ?t = "store d"
  let ?d1 = "snd (engine_call d)"
  let ?pat = "CHR ''%'' # ToLower ul query @ ''%''"
  let ?all = "select_matching_entities ?pat ?t"
  let ?found = "fetch (fetched d) ?all"
  let ?rels = "fetch (fetched ?d1) (relations_touching ?found ?t)"
  have two: "fails_within 2 d \<longleftrightarrow> engine_fails d \<or> engine_fails ?d1"
    by (simp add: eval_nat_numeral fails_within_Suc)
  have cut: "fetch_fails_within 2 d \<longleftrightarrow> fetched d \<noteq> None \<or> fetched ?d1 \<noteq> None"
    by (simp add: eval_nat_numeral fetch_fails_within_Suc)
  have st: "store d' = store d"
    using assms(6) SearchNodes_store[of ul d query] by simp
  have plain: "plain_text (Name e)" "plain_text (Type e)" if "e \<in> set (entities ?t)" for e
    using assms(5) that by (auto simp: plain_tables_def list_all_iff)
  have plain_ob: "plain_text (Content ob)" if "ob \<in> set (observations ?t)" for ob
    using assms(5) that by (auto simp: plain_tables_def list_all_iff)
  note match = search_pattern_match[OF assms(1,2,3)]
  have short: "length ?pat \<le> SQLITE_MAX_LIKE_PATTERN_LENGTH"
    using assms(4) by (simp add: ToLower_ascii[OF assms(1)])
  have all: "set ?all = set (entities_containing query ?t)"
    by (rule set_eqI)
      (auto simp: in_select_matching_entities[OF short] entities_containing_def list_ex_iff
        match plain plain_ob)
  have dist: "distinct ?found"
    by (rule fetch_distinct) (simp add: select_matching_entities_def)
  have sub: "set ?found \<subseteq> set (entities_containing query ?t)"
    using fetch_take[of "fetched d" ?all] all by simp
  have rsub: "set ?rels \<subseteq> set (relations_touching ?found ?t)"
    by (rule fetch_take)
  have whole: "set ?found = set (entities_containing query ?t) \<and>
      set ?rels = set (relations_touching ?found ?t)" if "\<not> fetch_fails_within 2 d"
    using that all by (simp add: cut)
  have res: "res =
     (if engine_fails d then Inl StorageFailure
      else if ?found = [] then Inr ([], [])
      else if engine_fails ?d1 then Inl StorageFailure
      else Inr (?found, ?rels))"
    using assms(6) by (simp add: SearchNodes_eq Let_def split: if_splits)
  show ?thesis
  proof (cases "engine_fails d")
    case True
    with res two st show ?thesis by simp
  next
    case ok: False
    show ?thesis
    proof (cases "?found = []")
      case True
      with ok res have "res = Inr ([], [])" by simp
      with True whole st show ?thesis by auto
    next
      case found: False
      show ?thesis
      proof (cases "engine_fails ?d1")
        case True
        with ok found res two st show ?thesis by simp
      next
        case False
        with ok found res have "res = Inr (?found, ?rels)" by simp
        with ok False dist sub rsub whole st two show ?thesis by simp
      qed
    qed
  qed
qed

theorem SearchNodes_substring_witness:
  "fst (SearchNodes (\<lambda>s. s) (language_db []) ''programming'')
     = Inr ([\<lparr>Name = ''Go'', Type = ''language''\<rparr>],
            [\<lparr>ID = 1, From = ''Alice'', To = ''Go'', RType = ''uses''\<rparr>]) \<and>
   set [\<lparr>Name = ''Go'', Type = ''language''\<rparr>]
     = set (entities_containing ''programming'' (store (language_db []))) \<and>
   set [\<lparr>ID = 1, From = ''Alice'', To = ''Go'', RType = ''uses''\<rparr>]
     = set (relations_touching [\<lparr>Name = ''Go'', Type = ''language''\<rparr>] (store (language_db []))) \<and>
   \<not> contains_ignoring_case ''programming'' ''Go'' \<and>
   \<not> contains_ignoring_case ''programming'' ''language'' \<and>
   contains_ignoring_case ''programming'' ''A Programming language''"
proof -
  have ascii: "list_all is_ascii ''programming''"
    by code_simp
  have plain: "\<not> list_ex is_wildcard ''programming''"
    by code_simp
  have short: "length ''programming'' + 2 \<le> SQLITE_MAX_LIKE_PATTERN_LENGTH"
    by (simp add: SQLITE_MAX_LIKE_PATTERN_LENGTH_def)
  have ok: "\<not> fails_within 2 (language_db [])"
    by (simp add: language_db_def)
  have all: "\<not> fetch_fails_within 2 (language_db [])"
    by (simp add: language_db_def)
  have found: "fst (SearchNodes (\<lambda>s. s) (language_db []) ''programming'')
     = Inr ([\<lparr>Name = ''Go'', Type = ''language''\<rparr>],
            [\<lparr>ID = 1, From = ''Alice'', To = ''Go'', RType = ''uses''\<rparr>])"
    by code_simp
  have texts: "\<not> contains_ignoring_case ''programming'' ''Go''"
    "\<not> contains_ignoring_case ''programming'' ''language''"
    "contains_ignoring_case ''programming'' ''A Programming language''"
    by code_simp+
  have nul: "plain_text ''programming''" and tables: "plain_tables (store (language_db []))"
    by code_simp+
  from SearchNodes_substring[OF ascii plain nul short tables surjective_pairing, where ul = "\<lambda>s. s"]
    all
  have "set [\<lparr>Name = ''Go'', Type = ''language''\<rparr>]
     = set (entities_containing ''programming'' (store (language_db [])))"
    and "set [\<lparr>ID = 1, From = ''Alice'', To = ''Go'', RType = ''uses''\<rparr>]
     = set (relations_touching [\<lparr>Name = ''Go'', Type = ''language''\<rparr>] (store (language_db [])))"
    unfolding found by simp_all
  with found texts show ?thesis by simp
qed

text \<open>C5 as it was stated, that the entities returned are exactly those that contain
  the query, does not hold for a query with a wildcard: \<open>c_m\<close> finds \<open>Company\<close>, which has no
  observation and contains \<open>c_m\<close> neither in its name nor in its type.\<close>

theorem SearchNodes_wildcard:
  "fst (SearchNodes (\<lambda>s. s) (alice_db []) ''c_m'')
     = Inr ([\<lparr>Name = ''Company'', Type = ''organization''\<rparr>],
            [\<lparr>ID = 1, From = ''Alice'', To = ''Company'', RType = ''works_at''\<rparr>]) \<and>
   \<not> contains_ignoring_case ''c_m'' ''Company'' \<and>
   \<not> contains_ignoring_case ''c_m'' ''organization'' \<and>
   filter (\<lambda>ob. EntityName ob = ''Company'') (observations (store (alice_db []))) = []"
  by code_simp

text \<open>
  What the conditions on the query keep out. A query that is too long for the pattern
  finds nothing, and that is no error: the failure of the \<open>LIKE\<close> ends the fetching
  before the first row. The same happens when the engine fails while it fetches.
\<close>

lemma SearchNodes_pattern_too_long:
  assumes "SQLITE_MAX_LIKE_PATTERN_LENGTH < length (ToLower ul query) + 2"
    and "\<not> engine_fails d"
  shows "fst (SearchNodes ul d query) = Inr ([], [])"
  using assms by (simp add: SearchNodes_eq select_matching_entities_def Let_def)

lemma SearchNodes_fetch_interrupted:
  "fst (SearchNodes (\<lambda>s. s) ((language_db [])\<lparr>plan := [interrupted 0]\<rparr>) ''programming'')
     = Inr ([], []) \<and>
   entities_containing ''programming'' language_tables = [\<lparr>Name = ''Go'', Type = ''language''\<rparr>]"
  by code_simp

text \<open>\<open>LIKE\<close> reads the pattern up to its first NUL character: the query of the
  three characters \<open>e\<close>, NUL and \<open>x\<close> finds \<open>Alice\<close>, whose name ends in \<open>e\<close>, though
  no stored text contains the query.\<close>

lemma SearchNodes_nul_in_query:
  "fst (SearchNodes (\<lambda>s. s) (alice_db []) [CHR ''e'', CHR 0x00, CHR ''x''])
     = Inr ([\<lparr>Name = ''Alice'', Type = ''person''\<rparr>],
            [\<lparr>ID = 1, From = ''Alice'', To = ''Company'', RType = ''works_at''\<rparr>]) \<and>
   entities_containing [CHR ''e'', CHR 0x00, CHR ''x''] alice_tables = []"
  by code_simp

text \<open>Go lowers the letters outside ASCII and SQLite does not: the query that is the
  name of the stored entity, a capital E with acute accent, does not find it.\<close>

lemma SearchNodes_beyond_ascii:
  "fst (SearchNodes e_acute_lower accent_db [CHR 0xC3, CHR 0x89]) = Inr ([], []) \<and>
   entities_containing [CHR 0xC3, CHR 0x89] (store accent_db)
     = [\<lparr>Name = [CHR 0xC3, CHR 0x89], Type = ''letter''\<rparr>]"
  by code_simp

section \<open>Requests over standard input\<close>

lemma handleStdioMCP_trace:
  "handleStdioMCP Unmarshal H d lines =
     (map snd (filter (\<lambda>(req, response). ReqID req \<noteq> None)
        (fst (dispatch_all H d (well_formed_requests Unmarshal lines)))),
      snd (dispatch_all H d (well_formed_requests Unmarshal lines)))"
proof (induction lines arbitrary: d)
  case Nil
  then show ?case by (simp add: well_formed_requests_def map_filter_simps)
next
  case (Cons line lines)
  show ?case
  proof (cases "line = [] \<or> Unmarshal line = None")
    case True
    then have "well_formed_requests Unmarshal (line # lines) = well_formed_requests Unmarshal lines"
      by (auto simp: well_formed_requests_def map_filter_simps)
    with True Cons.IH[of d] show ?thesis by auto
  next
    case False
    then obtain req where req: "line \<noteq> []" "Unmarshal line = Some req" by auto
    then have wf: "well_formed_requests Unmarshal (line # lines)
        = req # well_formed_requests Unmarshal lines"
      by (simp add: well_formed_requests_def map_filter_simps)
    obtain response d1 where h: "H d req = (response, d1)" by (cases "H d req")
    from req h Cons.IH[of d1] show ?thesis
      unfolding wf by (simp split: prod.splits)
  qed
qed

text \<open>
  C8. \<open>handleStdioMCP\<close> hands every request of a well-formed line to the dispatcher, in
  order, each on the database that the request before left: the effects of a request
  are applied whether or not it has an id. The responses it writes are those of the
  requests whose id is not nil, in order. Line by line: a well-formed line whose
  request has a nil id (absent or null) adds nothing to the output, one whose request
  has an id adds the response of the dispatcher, and in both cases the lines after it
  are handled on the database that the dispatcher left.
\<close>

theorem handleStdioMCP_notifications:
  "handleStdioMCP Unmarshal H d lines =
     (map snd (filter (\<lambda>(req, response). ReqID req \<noteq> None)
        (fst (dispatch_all H d (well_formed_requests Unmarshal lines)))),
      snd (dispatch_all H d (well_formed_requests Unmarshal lines))) \<and>
   (\<forall>line req rest. line \<noteq> [] \<and> Unmarshal line = Some req \<longrightarrow>
      handleStdioMCP Unmarshal H d (line # rest) =
        ((if ReqID req = None then [] else [fst (H d req)])
           @ fst (handleStdioMCP Unmarshal H (snd (H d req)) rest),
         snd (handleStdioMCP Unmarshal H (snd (H d req)) rest)))"
proof -
  have step: "handleStdioMCP Unmarshal H d (line # rest) =
        ((if ReqID req = None then [] else [fst (H d req)])
           @ fst (handleStdioMCP Unmarshal H (snd (H d req)) rest),
         snd (handleStdioMCP Unmarshal H (snd (H d req)) rest))"
    if "line \<noteq> []" "Unmarshal line = Some req" for line req rest
    using that by (simp split: prod.splits)
  with handleStdioMCP_trace[of Unmarshal H d lines] show ?thesis
    by blast
qed

theorem handleStdioMCP_notifications_witness:
  "fst (handleStdioMCP example_decoder create_on_request (Init []) [''notify'', '''', ''{'', ''call''])
     = [''created''] \<and>
   map Name (entities (store (snd (handleStdioMCP example_decoder create_on_request (Init [])
       [''notify'', '''', ''{'', ''call''])))) = [''Alice'', ''Bob'']"
  using handleStdioMCP_notifications[of example_decoder create_on_request "Init []"
      "[''notify'', '''', ''{'', ''call'']", THEN conjunct1]
  by (simp add: well_formed_requests_def map_filter_simps example_decoder_def create_on_request_def
      CreateEntity_eq Init_def entity_exists_def engine_call_def)

section \<open>Messages for a session\<close>

text \<open>
  C9, as the source has it. A POST message for a session id that is not registered
  leaves every session as it was, so nothing is queued for the dispatcher, and a
  second such call is answered like the first. The answer is 404 when the id is not
  empty and the body decodes to a request of version 2.0; the handler checks the body
  before it looks the session up, and answers 400 for an empty id, for a body that does
  not decode and for another version.
\<close>

theorem handleJSONRPCMessage_unknown_session:
  assumes "sessions (XSessionID r) = None"
    and "handleJSONRPCMessage Decode sessions r = (answer, sessions')"
  shows "sessions' = sessions \<and>
         handleJSONRPCMessage Decode sessions' r = (answer, sessions') \<and>
         answer =
           (if XSessionID r = [] then (StatusBadRequest, ''missing session ID'')
            else case Decode (Body r) of
                   None \<Rightarrow> (StatusBadRequest, ''bad JSON'')
                 | Some req \<Rightarrow>
                     if JSONRPC req \<noteq> ''2.0'' then (StatusBadRequest, ''invalid JSON-RPC version'')
                     else (StatusNotFound, ''session not found''))"
  using assms by (auto simp: handleJSONRPCMessage_def Let_def split: option.splits if_splits)

theorem handleJSONRPCMessage_unknown_session_witness:
  "handleJSONRPCMessage example_decoder Map.empty \<lparr>XSessionID = ''session_42'', Body = ''call''\<rparr>
     = ((404, ''session not found''), Map.empty) \<and>
   handleJSONRPCMessage example_decoder
      (snd (handleJSONRPCMessage example_decoder Map.empty \<lparr>XSessionID = ''session_42'', Body = ''call''\<rparr>))
      \<lparr>XSessionID = ''session_42'', Body = ''call''\<rparr>
     = ((404, ''session not found''), Map.empty)"
proof -
  have unknown: "(Map.empty :: nat MCPSessionManager) (XSessionID \<lparr>XSessionID = ''session_42'', Body = ''call''\<rparr>) = None"
    by simp
  from handleJSONRPCMessage_unknown_session[
      where sessions = "Map.empty :: nat MCPSessionManager"
        and r = "\<lparr>XSessionID = ''session_42'', Body = ''call''\<rparr>"
        and Decode = example_decoder,
      OF unknown surjective_pairing]
  show ?thesis
    by (simp add: example_decoder_def StatusNotFound_def prod_eq_iff)
qed

text \<open>C9 as it was stated, that every call for an unknown session is answered with
  404, does not hold: the request below is of version 1.0 and is answered with 400.\<close>

theorem handleJSONRPCMessage_bad_request_first:
  "(Map.empty :: nat MCPSessionManager) ''session_42'' = None \<and>
   handleJSONRPCMessage example_decoder Map.empty \<lparr>XSessionID = ''session_42'', Body = ''old''\<rparr>
     = ((400, ''invalid JSON-RPC version''), Map.empty)"
  by (simp add: handleJSONRPCMessage_def example_decoder_def StatusBadRequest_def)

end
